theory Spec2Isabelle
  imports Main "HOL-Library.Sublist" "HOL-Library.Multiset"
begin

section \<open>JavaScript strings\<close>

text \<open>
  The engine works on JavaScript strings. They are modelled as \<^typ>\<open>string\<close>: a list of
  code units below 256. Everything that follows (white space, case folding, word
  characters) is the ECMAScript definition restricted to that range.
\<close>

definition isSpace :: "char \<Rightarrow> bool" where
  \<comment> \<open>\<open>\s\<close> and the characters removed by \<open>trim()\<close>: TAB, LF, VT, FF, CR, SPACE, NBSP\<close>
  "isSpace c = (c \<in> set [CHR 0x09, CHR 0x0A, CHR 0x0B, CHR 0x0C, CHR 0x0D, CHR 0x20, CHR 0xA0])"

definition isDigit :: "char \<Rightarrow> bool" where
  "isDigit c = (c \<in> set ''0123456789'')"

definition isWord :: "char \<Rightarrow> bool" where
  \<comment> \<open>\<open>\w\<close>\<close>
  "isWord c =
     (c \<in> set ''abcdefghijklmnopqrstuvwxyzABCDEFGHIJKLMNOPQRSTUVWXYZ0123456789_'')"

definition lowerChars :: string where
  "lowerChars = ''abcdefghijklmnopqrstuvwxyz'' @ [CHR 0xE0, CHR 0xE1, CHR 0xE2, CHR 0xE3, CHR 0xE4, CHR 0xE5, CHR 0xE6, CHR 0xE7, CHR 0xE8, CHR 0xE9, CHR 0xEA, CHR 0xEB, CHR 0xEC, CHR 0xED, CHR 0xEE, CHR 0xEF, CHR 0xF0, CHR 0xF1, CHR 0xF2, CHR 0xF3, CHR 0xF4, CHR 0xF5, CHR 0xF6, CHR 0xF8, CHR 0xF9, CHR 0xFA, CHR 0xFB, CHR 0xFC, CHR 0xFD, CHR 0xFE]"

definition upperChars :: string where
  "upperChars = ''ABCDEFGHIJKLMNOPQRSTUVWXYZ'' @ [CHR 0xC0, CHR 0xC1, CHR 0xC2, CHR 0xC3, CHR 0xC4, CHR 0xC5, CHR 0xC6, CHR 0xC7, CHR 0xC8, CHR 0xC9, CHR 0xCA, CHR 0xCB, CHR 0xCC, CHR 0xCD, CHR 0xCE, CHR 0xCF, CHR 0xD0, CHR 0xD1, CHR 0xD2, CHR 0xD3, CHR 0xD4, CHR 0xD5, CHR 0xD6, CHR 0xD8, CHR 0xD9, CHR 0xDA, CHR 0xDB, CHR 0xDC, CHR 0xDD, CHR 0xDE]"

definition toUpperChar :: "char \<Rightarrow> char" where
  "toUpperChar c = (case map_of (zip lowerChars upperChars) c of Some u \<Rightarrow> u | None \<Rightarrow> c)"

definition toLowerChar :: "char \<Rightarrow> char" where
  "toLowerChar c = (case map_of (zip upperChars lowerChars) c of Some l \<Rightarrow> l | None \<Rightarrow> c)"

definition toLowerCase :: "string \<Rightarrow> string" where
  "toLowerCase s = map toLowerChar s"

definition trim :: "string \<Rightarrow> string" where
  "trim s = rev (dropWhile isSpace (rev (dropWhile isSpace s)))"

definition startsWith :: "string \<Rightarrow> string \<Rightarrow> bool" where
  "startsWith s p = (take (length p) s = p)"

definition substring :: "string \<Rightarrow> nat \<Rightarrow> nat \<Rightarrow> string" where
  \<comment> \<open>\<open>s.substring(a, b)\<close>: both ends clamped to the length, swapped when \<open>a > b\<close>\<close>
  "substring s a b =
     (let a' = min a (length s); b' = min b (length s);
          lo = min a' b'; hi = max a' b'
      in take (hi - lo) (drop lo s))"

definition substringFrom :: "string \<Rightarrow> nat \<Rightarrow> string" where
  \<comment> \<open>\<open>s.substring(a)\<close>\<close>
  "substringFrom s a = drop a s"

fun findChar :: "char \<Rightarrow> nat \<Rightarrow> string \<Rightarrow> nat option" where
  "findChar c p [] = None"
| "findChar c p (x # xs) = (if x = c then Some p else findChar c (Suc p) xs)"

definition indexOfChar :: "string \<Rightarrow> char \<Rightarrow> nat \<Rightarrow> nat option" where
  \<comment> \<open>\<open>s.indexOf(c, from)\<close> for a one-character needle; \<open>None\<close> is the result \<open>-1\<close>\<close>
  "indexOfChar s c from = findChar c from (drop from s)"

function splitStrAux :: "string \<Rightarrow> string \<Rightarrow> string \<Rightarrow> string list" where
  "splitStrAux sep cur [] = [rev cur]"
| "splitStrAux sep cur (c # cs) =
     (if sep \<noteq> [] \<and> take (length sep) (c # cs) = sep
      then rev cur # splitStrAux sep [] (drop (length sep) (c # cs))
      else splitStrAux sep (c # cur) cs)"
  by pat_completeness auto
termination
  by (relation "measure (\<lambda>(sep, cur, s). length s)") auto

definition splitStr :: "string \<Rightarrow> string \<Rightarrow> string list" where
  \<comment> \<open>\<open>s.split(sep)\<close> for a non-empty string separator\<close>
  "splitStr s sep = splitStrAux sep [] s"

section \<open>Regular expressions\<close>

text \<open>
  The engine is written with regular expressions throughout. They are modelled by an
  abstract syntax and the backtracking matcher of the ECMAScript specification: a
  matcher takes a continuation, alternatives are tried left to right, a greedy star tries
  one more iteration first and a lazy star tries the continuation first, and an iteration
  of a star that consumes nothing is rejected. No expression of the program has a
  capture group below a quantifier, so the reset of such groups at each iteration is not
  modelled.
\<close>

datatype citem = CChar char | CSpace | CNonSpace | CWord

datatype re =
    Eps
  | Lit char
  | CSet bool "citem list"
  | Seq re re
  | Alt re re
  | Star bool re
  | Group nat re
  | Backref nat
  | NotAhead re
  | Bol
  | Eol

text \<open>
  \<open>CSet neg items\<close> is a character class, negated when \<open>neg\<close> holds;
  \<open>Star greedy r\<close> is \<open>r*\<close> or \<open>r*?\<close>; \<open>Group n r\<close> is the \<open>n\<close>-th capture group;
  \<open>NotAhead r\<close> is \<open>(?!r)\<close>; \<open>Bol\<close> and \<open>Eol\<close> are \<open>^\<close> and \<open>$\<close> without the
  multiline flag.
\<close>

definition Plus :: "bool \<Rightarrow> re \<Rightarrow> re" where
  "Plus greedy r = Seq r (Star greedy r)"

definition Opt :: "re \<Rightarrow> re" where
  "Opt r = Alt r Eps"

fun seqs :: "re list \<Rightarrow> re" where
  "seqs [] = Eps"
| "seqs (r # rs) = Seq r (seqs rs)"

definition lits :: "string \<Rightarrow> re" where
  "lits s = seqs (map Lit s)"

definition spaces :: re where
  \<comment> \<open>\<open>\s*\<close>\<close>
  "spaces = Star True (CSet False [CSpace])"

definition spaces1 :: re where
  \<comment> \<open>\<open>\s+\<close>\<close>
  "spaces1 = Plus True (CSet False [CSpace])"

definition words1 :: re where
  \<comment> \<open>\<open>\w+\<close>\<close>
  "words1 = Plus True (CSet False [CWord])"

definition anyLazy :: re where
  \<comment> \<open>\<open>[\s\S]*?\<close>\<close>
  "anyLazy = Star False (CSet False [CSpace, CNonSpace])"

definition quoteSet :: re where
  \<comment> \<open>\<open>["']\<close>\<close>
  "quoteSet = CSet False [CChar (CHR 0x22), CChar (CHR 0x27)]"

definition notGt :: citem where
  "notGt = CChar (CHR ''>'')"

record regexp =
  ast :: re
  ignoreCase :: bool

definition canonicalize :: "bool \<Rightarrow> char \<Rightarrow> char" where
  \<comment> \<open>Canonicalize of the specification: upper case under the \<open>i\<close> flag\<close>
  "canonicalize ic c = (if ic then toUpperChar c else c)"

fun citemMatches :: "bool \<Rightarrow> citem \<Rightarrow> char \<Rightarrow> bool" where
  "citemMatches ic (CChar a) c = (canonicalize ic a = canonicalize ic c)"
| "citemMatches ic CSpace c = isSpace c"
| "citemMatches ic CNonSpace c = (\<not> isSpace c)"
| "citemMatches ic CWord c = isWord c"

type_synonym mstate = "nat \<times> string"
  \<comment> \<open>the position reached and the input that is left\<close>
type_synonym caps = "nat \<rightharpoonup> string"
type_synonym cont = "mstate \<Rightarrow> caps \<Rightarrow> (mstate \<times> caps) option"

fun rmatch :: "bool \<Rightarrow> re \<Rightarrow> cont \<Rightarrow> mstate \<Rightarrow> caps \<Rightarrow> (mstate \<times> caps) option" where
  "rmatch ic Eps k st cs = k st cs"
| "rmatch ic (Lit a) k (p, rest) cs =
     (case rest of
        [] \<Rightarrow> None
      | c # rest' \<Rightarrow>
          if canonicalize ic a = canonicalize ic c then k (Suc p, rest') cs else None)"
| "rmatch ic (CSet neg items) k (p, rest) cs =
     (case rest of
        [] \<Rightarrow> None
      | c # rest' \<Rightarrow>
          if list_ex (\<lambda>i. citemMatches ic i c) items \<noteq> neg then k (Suc p, rest') cs
          else None)"
| "rmatch ic (Seq a b) k st cs = rmatch ic a (\<lambda>st' cs'. rmatch ic b k st' cs') st cs"
| "rmatch ic (Alt a b) k st cs =
     (case rmatch ic a k st cs of Some r \<Rightarrow> Some r | None \<Rightarrow> rmatch ic b k st cs)"
| "rmatch ic (Star greedy a) k st cs =
     (if greedy then
        (case rmatch ic a
                (\<lambda>st' cs'. if length (snd st') < length (snd st)
                            then rmatch ic (Star greedy a) k st' cs' else None) st cs of
           Some r \<Rightarrow> Some r
         | None \<Rightarrow> k st cs)
      else
        (case k st cs of
           Some r \<Rightarrow> Some r
         | None \<Rightarrow>
             rmatch ic a
                (\<lambda>st' cs'. if length (snd st') < length (snd st)
                            then rmatch ic (Star greedy a) k st' cs' else None) st cs))"
| "rmatch ic (Group n a) k st cs =
     rmatch ic a (\<lambda>st' cs'. k st' (cs'(n \<mapsto> take (fst st' - fst st) (snd st)))) st cs"
| "rmatch ic (Backref n) k (p, rest) cs =
     (case cs n of
        None \<Rightarrow> k (p, rest) cs
      | Some s \<Rightarrow>
          if length s \<le> length rest \<and>
             map (canonicalize ic) (take (length s) rest) = map (canonicalize ic) s
          then k (p + length s, drop (length s) rest) cs
          else None)"
| "rmatch ic (NotAhead a) k st cs =
     (case rmatch ic a (\<lambda>st' cs'. Some (st', cs')) st cs of
        Some r \<Rightarrow> None
      | None \<Rightarrow> k st cs)"
| "rmatch ic Bol k (p, rest) cs = (if p = 0 then k (p, rest) cs else None)"
| "rmatch ic Eol k (p, rest) cs = (if rest = [] then k (p, rest) cs else None)"

record rmatched =
  mIndex :: nat
  mText :: string
  mGroups :: caps

definition mEnd :: "rmatched \<Rightarrow> nat" where
  "mEnd mt = mIndex mt + length (mText mt)"

definition matchAt :: "regexp \<Rightarrow> nat \<Rightarrow> string \<Rightarrow> rmatched option" where
  \<comment> \<open>one attempt at position \<open>p\<close>, where \<open>rest\<close> is the input from \<open>p\<close> on\<close>
  "matchAt r p rest =
     (case rmatch (ignoreCase r) (ast r) (\<lambda>st' cs'. Some (st', cs')) (p, rest) Map.empty of
        None \<Rightarrow> None
      | Some (st', cs) \<Rightarrow>
          Some \<lparr>mIndex = p, mText = take (fst st' - p) rest, mGroups = cs\<rparr>)"

fun search :: "regexp \<Rightarrow> nat \<Rightarrow> string \<Rightarrow> rmatched option" where
  "search r p rest =
     (case matchAt r p rest of
        Some mt \<Rightarrow> Some mt
      | None \<Rightarrow> (case rest of [] \<Rightarrow> None | c # rest' \<Rightarrow> search r (Suc p) rest'))"

definition exec :: "regexp \<Rightarrow> string \<Rightarrow> nat \<Rightarrow> rmatched option" where
  \<comment> \<open>\<open>regex.exec(s)\<close> of a global expression whose \<open>lastIndex\<close> is the third argument;
      on success the new \<open>lastIndex\<close> is \<open>mEnd\<close> of the result\<close>
  "exec r s lastIndex =
     (if lastIndex > length s then None else search r lastIndex (drop lastIndex s))"

definition test :: "regexp \<Rightarrow> string \<Rightarrow> bool" where
  \<comment> \<open>\<open>regex.test(s)\<close> on an expression whose \<open>lastIndex\<close> is 0\<close>
  "test r s = (exec r s 0 \<noteq> None)"

function execAll :: "regexp \<Rightarrow> string \<Rightarrow> nat \<Rightarrow> rmatched list" where
  "execAll r s lastIndex =
     (case exec r s lastIndex of
        None \<Rightarrow> []
      | Some mt \<Rightarrow>
          (let next = (if mText mt = [] then Suc (mEnd mt) else mEnd mt)
           in if lastIndex < next \<and> lastIndex \<le> length s
              then mt # execAll r s next else [mt]))"
  by pat_completeness auto
termination
  by (relation "measure (\<lambda>(r, s, lastIndex). Suc (length s) - lastIndex)") auto

text \<open>
  \<open>execAll\<close> is the loop shared by \<open>s.match(regex)\<close> and \<open>s.replace(regex, _)\<close> for a
  global expression: it starts at \<open>lastIndex = 0\<close>, collects every result and steps over
  an empty match by one position. A match never ends before the position the search
  started from, so the guard of the recursive call always holds (\<open>execAll_step\<close>).
\<close>

definition matchGlobal :: "regexp \<Rightarrow> string \<Rightarrow> string list option" where
  \<comment> \<open>\<open>s.match(regex)\<close> for a global expression; \<open>None\<close> is \<open>null\<close>\<close>
  "matchGlobal r s =
     (case execAll r s 0 of [] \<Rightarrow> None | ms \<Rightarrow> Some (map mText ms))"

fun assemble :: "(rmatched \<Rightarrow> string) \<Rightarrow> string \<Rightarrow> nat \<Rightarrow> rmatched list \<Rightarrow> string" where
  "assemble f s nextPos [] = drop nextPos s"
| "assemble f s nextPos (mt # ms) =
     (if nextPos \<le> mIndex mt
      then take (mIndex mt - nextPos) (drop nextPos s) @ f mt @ assemble f s (mEnd mt) ms
      else assemble f s nextPos ms)"

definition replaceFn :: "regexp \<Rightarrow> (rmatched \<Rightarrow> string) \<Rightarrow> string \<Rightarrow> string" where
  \<comment> \<open>\<open>s.replace(regex, fn)\<close> for a global expression and a callback\<close>
  "replaceFn r f s = assemble f s 0 (execAll r s 0)"

fun ngroups :: "re \<Rightarrow> nat" where
  "ngroups (Seq a b) = ngroups a + ngroups b"
| "ngroups (Alt a b) = ngroups a + ngroups b"
| "ngroups (Star g a) = ngroups a"
| "ngroups (Group n a) = Suc (ngroups a)"
| "ngroups (NotAhead a) = ngroups a"
| "ngroups r = 0"

definition capture :: "rmatched \<Rightarrow> nat \<Rightarrow> string" where
  \<comment> \<open>a capture read where \<open>undefined\<close> counts as the empty string\<close>
  "capture mt n = (case mGroups mt n of None \<Rightarrow> [] | Some x \<Rightarrow> x)"

definition digitVal :: "char \<Rightarrow> nat" where
  "digitVal c = of_char c - 48"

fun getSubstitution :: "nat \<Rightarrow> rmatched \<Rightarrow> string \<Rightarrow> string \<Rightarrow> string" where
  "getSubstitution m mt s [] = []"
| "getSubstitution m mt s [c] = [c]"
| "getSubstitution m mt s (c # d # rest) =
     (if c \<noteq> CHR ''$'' then c # getSubstitution m mt s (d # rest)
      else if d = CHR ''$'' then CHR ''$'' # getSubstitution m mt s rest
      else if d = CHR ''&'' then mText mt @ getSubstitution m mt s rest
      else if d = CHR 0x60 then take (mIndex mt) s @ getSubstitution m mt s rest
      else if d = CHR 0x27 then drop (mEnd mt) s @ getSubstitution m mt s rest
      else if isDigit d then
        (case rest of
           e # rest' \<Rightarrow>
             if isDigit e \<and> 10 * digitVal d + digitVal e \<le> m then
               (if 1 \<le> 10 * digitVal d + digitVal e
                then capture mt (10 * digitVal d + digitVal e) @ getSubstitution m mt s rest'
                else c # d # e # getSubstitution m mt s rest')
             else if 1 \<le> digitVal d \<and> digitVal d \<le> m
               then capture mt (digitVal d) @ getSubstitution m mt s rest
               else c # d # getSubstitution m mt s rest
         | [] \<Rightarrow>
             if 1 \<le> digitVal d \<and> digitVal d \<le> m
             then capture mt (digitVal d) @ getSubstitution m mt s rest
             else c # d # getSubstitution m mt s rest)
      else c # getSubstitution m mt s (d # rest))"

text \<open>
  \<open>getSubstitution m mt s template\<close> expands a replacement string for a match \<open>mt\<close> in
  \<open>s\<close> of an expression with \<open>m\<close> capture groups: \<open>$$\<close>, \<open>$&\<close>, the text before and
  after the match, and \<open>$n\<close>, \<open>$nn\<close> for a group that exists; any other \<open>$\<close> stays.
\<close>

definition replaceStr :: "regexp \<Rightarrow> string \<Rightarrow> string \<Rightarrow> string" where
  \<comment> \<open>\<open>s.replace(regex, replacement)\<close> for a global expression and a replacement string\<close>
  "replaceStr r replacement s =
     replaceFn r (\<lambda>mt. getSubstitution (ngroups (ast r)) mt s replacement) s"

function splitLoop :: "regexp \<Rightarrow> string \<Rightarrow> nat \<Rightarrow> nat \<Rightarrow> string list" where
  "splitLoop r s p q =
     (if q < length s then
        (case matchAt r q (drop q s) of
           None \<Rightarrow> splitLoop r s p (Suc q)
         | Some mt \<Rightarrow>
             (let e = min (mEnd mt) (length s) in
              if e = p \<or> e < q then splitLoop r s p (Suc q)
              else substring s p q # map (capture mt) [1 ..< Suc (ngroups (ast r))] @
                   (if e = q then splitLoop r s q (Suc q) else splitLoop r s e e)))
      else [substring s p (length s)])"
  by pat_completeness auto
termination
  by (relation "measure (\<lambda>(r, s, p, q). length s - q)") auto

definition splitRe :: "string \<Rightarrow> regexp \<Rightarrow> string list" where
  \<comment> \<open>\<open>s.split(regex)\<close>: the pieces between the matches, each followed by the captures
      of the match that ends it. An empty match at \<open>q > p\<close> cuts at \<open>q\<close> and the search
      goes on from \<open>q + 1\<close>, which is what the two iterations of the built-in amount to.\<close>
  "splitRe s r =
     (if s = [] then (if matchAt r 0 [] = None then [s] else [])
      else splitLoop r s 0 0)"

section \<open>PatternCompiler: \<open>compilePattern\<close>\<close>

record part =
  name :: string
  pattern :: string

record compiled =
  regex :: regexp
  variables :: "string list"

definition varToken :: re where
  \<comment> \<open>\<open>{{\w+}}\<close>\<close>
  "varToken = seqs [lits ''{{'', words1, lits ''}}'']"

definition varSplitter :: regexp where
  \<comment> \<open>\<open>/({{\w+}})/g\<close>\<close>
  "varSplitter = \<lparr>ast = Group 1 varToken, ignoreCase = False\<rparr>"

definition varExact :: regexp where
  \<comment> \<open>\<open>/^{{(\w+)}}$/\<close>\<close>
  "varExact = \<lparr>ast = seqs [Bol, lits ''{{'', Group 1 words1, lits ''}}'', Eol], ignoreCase = False\<rparr>"

fun compileStatic :: "bool \<Rightarrow> string \<Rightarrow> re list" where
  "compileStatic inSpace [] = []"
| "compileStatic inSpace (c # cs) =
     (if isSpace c then
        (if inSpace then compileStatic True cs else spaces # compileStatic True cs)
      else if c = CHR 0x22 \<or> c = CHR 0x27 then
        CSet False [CChar (CHR 0x27), CChar (CHR 0x22)] # compileStatic False cs
      else if c = CHR ''>'' then
        [spaces, Opt (Lit (CHR ''/'')), Lit (CHR ''>'')] @ compileStatic False cs
      else Lit c # compileStatic False cs)"

text \<open>
  \<open>compileStatic False part\<close> is the expression that the three \<open>replace\<close> calls on a
  static part build: the characters \<open>.*+?^${}()|[]\\<close> are escaped, so that every
  character stands for itself; then a run of white space becomes \<open>\s*\<close>, a quote becomes
  \<open>['"]\<close> and \<open>>\<close> becomes \<open>\s*\/?>\<close>. The flag says that the previous character
  belonged to the run of white space already translated.
\<close>

fun compileParts :: "string list \<Rightarrow> re list \<Rightarrow> string list \<Rightarrow> re list \<times> string list" where
  "compileParts [] regexStr vars = (regexStr, vars)"
| "compileParts (p # ps) regexStr vars =
     (case exec varExact p 0 of
        Some varMatch \<Rightarrow>
          compileParts ps (regexStr @ [Group (Suc (length vars)) anyLazy])
                          (vars @ [capture varMatch 1])
      | None \<Rightarrow>
          if p = [] then compileParts ps regexStr vars
          else compileParts ps (regexStr @ compileStatic False p) vars)"

definition compilePattern :: "string \<Rightarrow> compiled" where
  "compilePattern patternString =
     (let parts = splitRe patternString varSplitter;
          (regexStr, vars) = compileParts parts [] []
      in \<lparr>regex = \<lparr>ast = seqs regexStr, ignoreCase = True\<rparr>, variables = vars\<rparr>)"

section \<open>TemplateRenderer: \<open>renderTarget\<close>\<close>

definition decimalValue :: "string \<Rightarrow> nat" where
  "decimalValue ds = foldl (\<lambda>n d. 10 * n + digitVal d) 0 ds"

definition varRegex :: "string \<Rightarrow> regexp" where
  "varRegex key =
     (if key \<noteq> [] \<and> list_all isDigit key
      then \<lparr>ast = seqs (replicate (decimalValue key) (Lit (CHR ''{'')) @ [Lit (CHR ''}'')]),
            ignoreCase = False\<rparr>
      else \<lparr>ast = lits (''{{'' @ key @ ''}}''), ignoreCase = False\<rparr>)"

text \<open>
  \<open>varRegex key\<close> is \<open>new RegExp(`{{${key}}}`, 'g')\<close> for a key made of word
  characters, which is what both callers pass (the names come out of \<open>\w+\<close>). Braces
  that do not form a quantifier stand for themselves, so the expression matches the text
  \<open>{{key}}\<close>; when the key is a number \<open>n\<close>, however, \<open>{n}\<close> is a quantifier of the first
  brace, and the expression matches \<open>n\<close> opening braces and one closing brace.
\<close>

definition leftoverVars :: regexp where
  \<comment> \<open>\<open>/{{\w+}}/g\<close>\<close>
  "leftoverVars = \<lparr>ast = varToken, ignoreCase = False\<rparr>"

definition anchorHead :: "re list" where
  \<comment> \<open>\<open><a\s+(?:[^>]*?\s+)?href=\<close>\<close>
  "anchorHead =
     [lits ''<a'', spaces1, Opt (Seq (Star False (CSet True [notGt])) spaces1), lits ''href='']"

definition anchorTail :: "nat \<Rightarrow> re list" where
  \<comment> \<open>\<open>[^>]*>([\s\S]*?)<\/a>\<close>, the group being the \<open>n\<close>-th\<close>
  "anchorTail n =
     [Star True (CSet True [notGt]), Lit (CHR ''>''), Group n anyLazy, lits ''</a>'']"

definition hrefQuotedEmpty :: regexp where
  \<comment> \<open>\<open>/<a\s+(?:[^>]*?\s+)?href=(["'])(?:\s*)\1[^>]*>([\s\S]*?)<\/a>/gi\<close>\<close>
  "hrefQuotedEmpty =
     \<lparr>ast = seqs (anchorHead @ [Group 1 quoteSet, spaces, Backref 1] @ anchorTail 2),
      ignoreCase = True\<rparr>"

definition hrefNoQuotes :: regexp where
  \<comment> \<open>\<open>/<a\s+(?:[^>]*?\s+)?href=(?:(?!\s|>)[^"'])+[^>]*>([\s\S]*?)<\/a>/gi\<close>\<close>
  "hrefNoQuotes =
     \<lparr>ast = seqs (anchorHead @
        [Plus True (Seq (NotAhead (Alt (CSet False [CSpace]) (Lit (CHR ''>''))))
                        (CSet True [CChar (CHR 0x22), CChar (CHR 0x27)]))] @ anchorTail 1),
      ignoreCase = True\<rparr>"

definition hrefTwoQuotes :: regexp where
  \<comment> \<open>\<open>/<a\s+[^>]*href=["']["'][^>]*>([\s\S]*?)<\/a>/gi\<close>\<close>
  "hrefTwoQuotes =
     \<lparr>ast = seqs ([lits ''<a'', spaces1, Star True (CSet True [notGt]), lits ''href='',
                   quoteSet, quoteSet] @ anchorTail 1),
      ignoreCase = True\<rparr>"

fun substituteData :: "(string \<times> string) list \<Rightarrow> string \<Rightarrow> string" where
  "substituteData [] result = result"
| "substituteData ((key, val) # entries) result =
     substituteData entries (replaceStr (varRegex key) val result)"

definition renderTarget :: "string \<Rightarrow> (string \<times> string) list \<Rightarrow> string" where
  "renderTarget patternString data =
     (let result = substituteData data patternString;
          result = replaceStr leftoverVars [] result;
          result = replaceStr hrefQuotedEmpty ''$2'' result;
          result = replaceStr hrefNoQuotes ''$1'' result;
          result = replaceStr hrefTwoQuotes ''$1'' result
      in result)"

text \<open>
  The second argument is \<open>Object.entries(data)\<close>: the bindings in the order of the
  object's keys. \<open>value || ''\<close> is the value itself, every value being a string.
\<close>

section \<open>PartDefinitionParser: \<open>parseMarkdownParts\<close>\<close>

datatype mode = PatternSearch | PatternContent

definition lineBreak :: regexp where
  \<comment> \<open>\<open>/\r?\n/\<close>\<close>
  "lineBreak = \<lparr>ast = Seq (Opt (Lit (CHR 0x0D))) (Lit (CHR 0x0A)), ignoreCase = False\<rparr>"

definition finalize :: "part list \<Rightarrow> part option \<Rightarrow> part list" where
  \<comment> \<open>\<open>if (currentPart && currentPart.name && currentPart.pattern) { trim; push }\<close>\<close>
  "finalize parts currentPart =
     (case currentPart of
        None \<Rightarrow> parts
      | Some cp \<Rightarrow>
          if name cp \<noteq> [] \<and> pattern cp \<noteq> []
          then parts @ [cp\<lparr>pattern := trim (pattern cp)\<rparr>]
          else parts)"

fun parseLines ::
  "string list \<Rightarrow> part list \<Rightarrow> part option \<Rightarrow> mode option \<Rightarrow> part list" where
  "parseLines [] parts currentPart md = finalize parts currentPart"
| "parseLines (line # lines) parts currentPart md =
     (if startsWith line ''# '' then
        parseLines lines (finalize parts currentPart)
          (Some \<lparr>name = trim (substringFrom line 2), pattern = []\<rparr>) (Some PatternSearch)
      else if startsWith line ''## Pattern'' then
        parseLines lines parts currentPart (Some PatternContent)
      else if md = Some PatternContent then
        (case currentPart of
           Some cp \<Rightarrow>
             parseLines lines parts (Some (cp\<lparr>pattern := pattern cp @ line @ [CHR 0x0A]\<rparr>)) md
         | None \<Rightarrow> parseLines lines parts currentPart md)
      else parseLines lines parts currentPart md)"

definition parseMarkdownParts :: "string \<Rightarrow> part list" where
  "parseMarkdownParts mdContent = parseLines (splitRe mdContent lineBreak) [] None None"

section \<open>StructureNormalizer: \<open>cleanHtml\<close> and \<open>recursiveRemoveEmpty\<close>\<close>

text \<open>
  The document tree. An element has its tag name, its attributes in order and its child
  nodes; \<open>node.children\<close> is the sublist of the child nodes that are elements.
  \<open>node.tagName\<close> is the name, in upper case for an HTML element, and the code reads it
  through \<open>toLowerCase()\<close> only.
\<close>

datatype node =
    Element string "(string \<times> string) list" "node list"
  | Text string
  | Comment string

text \<open>
  The parser and the serializer behind \<open>innerHTML\<close> belong to the platform, not to the
  program: they are a parameter of everything that reaches them.
\<close>

record dom =
  parseFragment :: "string \<Rightarrow> node list"
  serializeFragment :: "node list \<Rightarrow> string"

fun isElement :: "node \<Rightarrow> bool" where
  "isElement (Element tag attrs kids) = True"
| "isElement n = False"

fun childNodes :: "node \<Rightarrow> node list" where
  "childNodes (Element tag attrs kids) = kids"
| "childNodes n = []"

fun textContent :: "node \<Rightarrow> string" where
  "textContent (Element tag attrs kids) = concat (map textContent kids)"
| "textContent (Text t) = t"
| "textContent (Comment c) = []"

definition isAsciiSpace :: "char \<Rightarrow> bool" where
  "isAsciiSpace c = (c \<in> set [CHR 0x09, CHR 0x0A, CHR 0x0C, CHR 0x0D, CHR 0x20])"

fun tokens :: "string \<Rightarrow> string \<Rightarrow> string list" where
  "tokens cur [] = (if cur = [] then [] else [rev cur])"
| "tokens cur (c # cs) =
     (if isAsciiSpace c then (if cur = [] then tokens [] cs else rev cur # tokens [] cs)
      else tokens (c # cur) cs)"

definition classList :: "(string \<times> string) list \<Rightarrow> string list" where
  \<comment> \<open>the tokens of the \<open>class\<close> attribute, separated by ASCII white space\<close>
  "classList attrs = (case map_of attrs ''class'' of None \<Rightarrow> [] | Some v \<Rightarrow> tokens [] v)"

definition voidTags :: "string list" where
  "voidTags = [''img'', ''br'', ''hr'', ''input'', ''meta'', ''link'']"

fun recursiveRemoveEmpty :: "node \<Rightarrow> bool \<times> node" where
  "recursiveRemoveEmpty (Element tag attrs kids) =
     (let kids' = concat (map (\<lambda>child.
                    if isElement child
                    then (let (removed, child') = recursiveRemoveEmpty child
                          in if removed then [] else [child'])
                    else [child]) kids);
          node = Element tag attrs kids';
          tagName = toLowerCase tag
      in if tagName \<in> set voidTags then (False, node)
         else if ''numbering-num'' \<in> set (classList attrs) then (False, node)
         else if tagName \<in> set [''span'', ''i'', ''em'', ''strong'', ''b'', ''th'', ''td'']
                 \<and> (tagName \<in> set [''th'', ''td''] \<or> length attrs > 0)
         then (False, node)
         else if length (filter isElement kids') = 0 \<and> trim (textContent node) = []
         then (True, node)
         else (False, node))"
| "recursiveRemoveEmpty n = (False, n)"

text \<open>
  \<open>recursiveRemoveEmpty n\<close> returns the node as the call leaves it and whether the call
  ended in \<open>node.remove()\<close>. The children visited are the element children, from a
  snapshot; a child that removed itself is gone from its parent when the parent is
  looked at. Text and comment nodes are never visited. On the root, which has no parent,
  \<open>remove()\<close> does nothing.
\<close>

definition visitChild :: "node \<Rightarrow> node list" where
  \<comment> \<open>what one child leaves in its parent once the loop over the children is through\<close>
  "visitChild child =
     (if isElement child
      then (let (removed, child') = recursiveRemoveEmpty child
            in if removed then [] else [child'])
      else [child])"

definition cleanHtml :: "dom \<Rightarrow> string \<Rightarrow> string" where
  "cleanHtml d htmlString =
     (let root = Element ''div'' [] (parseFragment d htmlString);
          (removed, root') = recursiveRemoveEmpty root
      in serializeFragment d (childNodes root'))"

section \<open>ContainerAnalyzer: \<open>analyzeContainer\<close>\<close>

record containerInfo =
  tagName :: string
  startPattern :: string
  variable :: string

definition openTagHead :: regexp where
  \<comment> \<open>\<open>/^\s*<(\w+)/\<close>\<close>
  "openTagHead = \<lparr>ast = seqs [Bol, spaces, Lit (CHR ''<''), Group 1 words1], ignoreCase = False\<rparr>"

definition closeRegex :: "string \<Rightarrow> regexp" where
  \<comment> \<open>\<open>new RegExp(`^\\s*<\\/${tagName}\\s*>\\s*$`, 'i')\<close>, the tag name being word
      characters\<close>
  "closeRegex tag =
     \<lparr>ast = seqs [Bol, spaces, lits ''</'', lits tag, spaces, Lit (CHR ''>''), spaces, Eol],
      ignoreCase = True\<rparr>"

definition analyzeContainer :: "string \<Rightarrow> containerInfo option" where
  \<comment> \<open>\<open>None\<close> is the result \<open>{ isContainer: false }\<close>\<close>
  "analyzeContainer pat =
     (case matchGlobal leftoverVars pat of
        None \<Rightarrow> None
      | Some vars \<Rightarrow>
          if length vars \<noteq> 1 then None
          else
            (case splitStr pat (hd vars) of
               [startStr, endStr] \<Rightarrow>
                 (case exec openTagHead startStr 0 of
                    None \<Rightarrow> None
                  | Some tagMatch \<Rightarrow>
                      if \<not> test (closeRegex (capture tagMatch 1)) endStr then None
                      else Some \<lparr>tagName = capture tagMatch 1,
                                 startPattern = startStr,
                                 variable = filter (\<lambda>c. c \<noteq> CHR ''{'' \<and> c \<noteq> CHR ''}'') (hd vars)\<rparr>)
             | pieces \<Rightarrow> None))"

section \<open>BalancedMatcher: \<open>findBalancedCloseIndex\<close> and \<open>migrateBalanced\<close>\<close>

definition tagScanner :: "string \<Rightarrow> regexp" where
  \<comment> \<open>\<open>new RegExp(`(<${lowerTag}[\\s>])|(<\\/${lowerTag}\\s*>)`, 'gi')\<close>\<close>
  "tagScanner lowerTag =
     \<lparr>ast = Alt (Group 1 (seqs [Lit (CHR ''<''), lits lowerTag,
                               CSet False [CSpace, CChar (CHR ''>'')]]))
                (Group 2 (seqs [lits ''</'', lits lowerTag, spaces, Lit (CHR ''>'')])),
      ignoreCase = True\<rparr>"

function scanBalanced :: "regexp \<Rightarrow> string \<Rightarrow> nat \<Rightarrow> int \<Rightarrow> nat option" where
  "scanBalanced r html lastIndex depth =
     (case exec r html lastIndex of
        None \<Rightarrow> None
      | Some mt \<Rightarrow>
          (let depth' = (if capture mt 1 \<noteq> [] then depth + 1
                         else if capture mt 2 \<noteq> [] then depth - 1
                         else depth)
           in if depth' = 0 then Some (mIndex mt)
              else if lastIndex < mEnd mt \<and> lastIndex \<le> length html
              then scanBalanced r html (mEnd mt) depth'
              else None))"
  by pat_completeness auto
termination
  by (relation "measure (\<lambda>(r, html, lastIndex, depth). Suc (length html) - lastIndex)") auto

definition findBalancedCloseIndex :: "string \<Rightarrow> nat \<Rightarrow> string \<Rightarrow> nat option" where
  \<comment> \<open>\<open>None\<close> is the result \<open>-1\<close>. Both alternatives of the scanner begin with \<open><\<close>, so
      a match is never empty and the scan always moves on.\<close>
  "findBalancedCloseIndex html fromIndex tag =
     scanBalanced (tagScanner (toLowerCase tag)) html fromIndex 1"

record span =
  spanStart :: nat
  spanEnd :: nat
  content :: string

function collectMatches :: "regexp \<Rightarrow> string \<Rightarrow> string \<Rightarrow> nat \<Rightarrow> span list option" where
  "collectMatches r tag html lastIndex =
     (case exec r html lastIndex of
        None \<Rightarrow> Some []
      | Some mt \<Rightarrow>
          (let startIndex = mIndex mt;
               contentStartIndex = startIndex + length (mText mt)
           in case findBalancedCloseIndex html contentStartIndex tag of
                Some closeIndex \<Rightarrow>
                  (let contentEndIndex = closeIndex;
                       totalEndIndex = (case indexOfChar html (CHR ''>'') closeIndex of
                                          None \<Rightarrow> 0 | Some i \<Rightarrow> i + 1);
                       found = \<lparr>spanStart = startIndex, spanEnd = totalEndIndex,
                                content = substring html contentStartIndex contentEndIndex\<rparr>
                   in if lastIndex < totalEndIndex \<and> lastIndex \<le> length html
                      then map_option (Cons found) (collectMatches r tag html totalEndIndex)
                      else None)
              | None \<Rightarrow>
                  if lastIndex < contentStartIndex \<and> lastIndex \<le> length html
                  then collectMatches r tag html contentStartIndex
                  else None))"
  by pat_completeness auto
termination
  by (relation "measure (\<lambda>(r, tag, html, lastIndex). Suc (length html) - lastIndex)") auto

text \<open>
  \<open>collectMatches\<close> is the \<open>while\<close> loop of \<open>migrateBalanced\<close>, the last argument being
  \<open>regex.lastIndex\<close>. The result \<open>None\<close> says that the loop does not end: when the prefix
  matches the empty string at \<open>lastIndex\<close> and no closing tag balances, the next
  iteration starts from the same state.
\<close>

datatype error = TypeError

datatype jsval = JUndefined | JStr string | JInherited

text \<open>
  A value read from \<open>targetMap\<close>: \<open>undefined\<close>, a pattern string, or a member inherited
  from \<open>Object.prototype\<close> (a function, or the prototype itself for \<open>__proto__\<close>).
\<close>

definition truthy :: "jsval \<Rightarrow> bool" where
  "truthy v = (case v of JUndefined \<Rightarrow> False | JStr s \<Rightarrow> s \<noteq> [] | JInherited \<Rightarrow> True)"

definition renderTargetV :: "jsval \<Rightarrow> (string \<times> string) list \<Rightarrow> error + string" where
  \<comment> \<open>\<open>renderTarget\<close> called with what \<open>targetMap\<close> gave: \<open>result.replace\<close> is not a
      function unless the value is a string\<close>
  "renderTargetV tPattern data =
     (case tPattern of JStr t \<Rightarrow> Inr (renderTarget t data) | other \<Rightarrow> Inl TypeError)"

definition diffStart :: string where
  "diffStart = ''<!--__DIFF_START__-->''"

definition diffEnd :: string where
  "diffEnd = ''<!--__DIFF_END__-->''"

fun replaceSpans :: "jsval \<Rightarrow> string \<Rightarrow> span list \<Rightarrow> string \<Rightarrow> error + string" where
  "replaceSpans tPattern var [] html = Inr html"
| "replaceSpans tPattern var (m # ms) html =
     (case renderTargetV tPattern [(var, content m)] of
        Inl e \<Rightarrow> Inl e
      | Inr newSnippet \<Rightarrow>
          replaceSpans tPattern var ms
            (substring html 0 (spanStart m) @ (diffStart @ newSnippet @ diffEnd)
               @ substringFrom html (spanEnd m)))"

definition migrateBalanced ::
  "string \<Rightarrow> part \<Rightarrow> jsval \<Rightarrow> containerInfo \<Rightarrow> (error + string) option" where
  "migrateBalanced html sPart tPattern info =
     (let startRes = compilePattern (startPattern info) in
      case collectMatches (regex startRes) (tagName info) html 0 of
        None \<Rightarrow> None
      | Some matches \<Rightarrow> Some (replaceSpans tPattern (variable info) (rev matches) html))"

section \<open>MigrationPipeline: \<open>migrate\<close>\<close>

record migrationResult =
  code :: string
  preview :: string
  missing :: "part list"

definition protoNames :: "string list" where
  \<comment> \<open>the properties of \<open>Object.prototype\<close>, which the literal \<open>{}\<close> inherits\<close>
  "protoNames =
     [''constructor'', ''__defineGetter__'', ''__defineSetter__'', ''hasOwnProperty'',
      ''__lookupGetter__'', ''__lookupSetter__'', ''isPrototypeOf'',
      ''propertyIsEnumerable'', ''toString'', ''valueOf'', ''__proto__'',
      ''toLocaleString'']"

definition targetMapSet :: "(string \<rightharpoonup> string) \<Rightarrow> part \<Rightarrow> (string \<rightharpoonup> string)" where
  \<comment> \<open>\<open>targetMap[p.name] = p.pattern\<close>; assigning a string to \<open>__proto__\<close> does nothing\<close>
  "targetMapSet own p = (if name p = ''__proto__'' then own else own(name p \<mapsto> pattern p))"

definition buildTargetMap :: "part list \<Rightarrow> (string \<rightharpoonup> string)" where
  \<comment> \<open>\<open>targetParts.forEach(p => targetMap[p.name] = p.pattern)\<close> on \<open>{}\<close>\<close>
  "buildTargetMap targetParts = foldl targetMapSet Map.empty targetParts"

definition targetMapGet :: "(string \<rightharpoonup> string) \<Rightarrow> string \<Rightarrow> jsval" where
  \<comment> \<open>\<open>targetMap[key]\<close>\<close>
  "targetMapGet own key =
     (case own key of
        Some pat \<Rightarrow> JStr pat
      | None \<Rightarrow> if key \<in> set protoNames then JInherited else JUndefined)"

definition compareParts :: "part \<Rightarrow> part \<Rightarrow> int" where
  \<comment> \<open>\<open>(a, b) => b.pattern.length - a.pattern.length\<close>\<close>
  "compareParts a b = int (length (pattern b)) - int (length (pattern a))"

fun insertSorted :: "('a \<Rightarrow> 'a \<Rightarrow> int) \<Rightarrow> 'a \<Rightarrow> 'a list \<Rightarrow> 'a list" where
  "insertSorted cmp x [] = [x]"
| "insertSorted cmp x (y # ys) =
     (if cmp x y \<le> 0 then x # y # ys else y # insertSorted cmp x ys)"

definition sortArray :: "('a \<Rightarrow> 'a \<Rightarrow> int) \<Rightarrow> 'a list \<Rightarrow> 'a list" where
  \<comment> \<open>\<open>Array.prototype.sort\<close> with a comparator: a stable sort\<close>
  "sortArray cmp xs = foldr (insertSorted cmp) xs []"

definition isArrayIndex :: "string \<Rightarrow> bool" where
  \<comment> \<open>a key that is a canonical array index: such keys come first in an object, in
      ascending order\<close>
  "isArrayIndex k =
     (k \<noteq> [] \<and> list_all isDigit k \<and> (k = ''0'' \<or> hd k \<noteq> CHR ''0'')
      \<and> decimalValue k < 4294967295)"

fun objSet :: "string \<Rightarrow> string \<Rightarrow> (string \<times> string) list \<Rightarrow> (string \<times> string) list" where
  "objSet k v [] = [(k, v)]"
| "objSet k v ((k', v') # es) =
     (if k = k' then (k, v) # es
      else if isArrayIndex k \<and> (if isArrayIndex k' then decimalValue k < decimalValue k' else True)
      then (k, v) # (k', v') # es
      else (k', v') # objSet k v es)"

text \<open>
  \<open>objSet k v entries\<close> is \<open>obj[k] = v\<close> on the object whose \<open>Object.entries\<close> are
  \<open>entries\<close>: a key already there keeps its place.
\<close>

fun extractBindings :: "string list \<Rightarrow> nat \<Rightarrow> rmatched \<Rightarrow> (string \<times> string) list \<Rightarrow> (string \<times> string) list" where
  \<comment> \<open>\<open>extracted[variables[i]] = args[i] || ''\<close>, the \<open>i\<close>-th argument being group \<open>i + 1\<close>\<close>
  "extractBindings [] i mt extracted = extracted"
| "extractBindings (v # vs) i mt extracted = extractBindings vs (Suc i) mt (objSet v (capture mt (Suc i)) extracted)"

definition migrateRegex :: "string \<Rightarrow> part \<Rightarrow> jsval \<Rightarrow> error + string" where
  \<comment> \<open>the fallback: \<open>currentHtml.replace(regex, callback)\<close>. The callback runs once for
      each match, and throws at the first one when the target is no string.\<close>
  "migrateRegex html sPart tPattern =
     (let c = compilePattern (pattern sPart) in
      case tPattern of
        JStr t \<Rightarrow>
          Inr (replaceFn (regex c)
                 (\<lambda>mt. diffStart @ renderTarget t (extractBindings (variables c) 0 mt []) @ diffEnd) html)
      | other \<Rightarrow> if execAll (regex c) html 0 = [] then Inr html else Inl TypeError)"

fun migrateParts ::
  "(string \<rightharpoonup> string) \<Rightarrow> part list \<Rightarrow> string \<Rightarrow> part list
     \<Rightarrow> (error + string \<times> part list) option" where
  "migrateParts targetMap [] currentHtml missingMappings =
     Some (Inr (currentHtml, missingMappings))"
| "migrateParts targetMap (sPart # rest) currentHtml missingMappings =
     (let tPattern = targetMapGet targetMap (name sPart) in
      if \<not> truthy tPattern then
        (if test (regex (compilePattern (pattern sPart))) currentHtml
         then migrateParts targetMap rest currentHtml
                (missingMappings @ [\<lparr>name = name sPart, pattern = pattern sPart\<rparr>])
         else migrateParts targetMap rest currentHtml missingMappings)
      else
        (case analyzeContainer (pattern sPart) of
           Some containerInfo \<Rightarrow>
             (case migrateBalanced currentHtml sPart tPattern containerInfo of
                None \<Rightarrow> None
              | Some (Inl e) \<Rightarrow> Some (Inl e)
              | Some (Inr html') \<Rightarrow> migrateParts targetMap rest html' missingMappings)
         | None \<Rightarrow>
             (case migrateRegex currentHtml sPart tPattern of
                Inl e \<Rightarrow> Some (Inl e)
              | Inr html' \<Rightarrow> migrateParts targetMap rest html' missingMappings)))"

text \<open>
  \<open>migrateParts\<close> is the \<open>for\<close> loop of \<open>migrate\<close> over the sorted source parts, with
  the working text and the list of missing mappings as its state. \<open>Some (Inl e)\<close> is an
  exception that leaves \<open>migrate\<close>; \<open>None\<close> is a balanced scan that does not end.
\<close>

definition diffMarkers :: regexp where
  \<comment> \<open>\<open>/<!--__DIFF_START__-->|<!--__DIFF_END__-->/g\<close>\<close>
  "diffMarkers = \<lparr>ast = Alt (lits diffStart) (lits diffEnd), ignoreCase = False\<rparr>"

definition diffSplitter :: regexp where
  \<comment> \<open>\<open>/(<!--__DIFF_START__-->|<!--__DIFF_END__-->)/g\<close>\<close>
  "diffSplitter = \<lparr>ast = Group 1 (Alt (lits diffStart) (lits diffEnd)), ignoreCase = False\<rparr>"

definition literal :: "string \<Rightarrow> regexp" where
  "literal s = \<lparr>ast = lits s, ignoreCase = False\<rparr>"

definition escapeHtml :: "string \<Rightarrow> string" where
  "escapeHtml p =
     replaceStr (literal [CHR 0x27]) ''&#039;''
       (replaceStr (literal [CHR 0x22]) ''&quot;''
          (replaceStr (literal ''>'') ''&gt;''
             (replaceStr (literal ''<'') ''&lt;''
                (replaceStr (literal ''&'') ''&amp;'' p))))"

fun buildPreview :: "string list \<Rightarrow> string \<Rightarrow> string" where
  "buildPreview [] previewHtml = previewHtml"
| "buildPreview (p # ps) previewHtml =
     (if p = diffStart then buildPreview ps (previewHtml @ ''<span class='' @ [CHR 0x22]
                                              @ ''diff-highlight'' @ [CHR 0x22] @ ''>'')
      else if p = diffEnd then buildPreview ps (previewHtml @ ''</span>'')
      else buildPreview ps (previewHtml @ escapeHtml p))"

definition sortedSourceParts :: "part list \<Rightarrow> part list" where
  \<comment> \<open>\<open>[...sourceParts].sort((a, b) => b.pattern.length - a.pattern.length)\<close>\<close>
  "sortedSourceParts sourceParts = sortArray compareParts sourceParts"

definition migrate ::
  "dom \<Rightarrow> string \<Rightarrow> part list \<Rightarrow> part list \<Rightarrow> (error + migrationResult) option" where
  "migrate d sourceHtml sourceParts targetParts =
     (let targetMap = buildTargetMap targetParts in
      case migrateParts targetMap (sortedSourceParts sourceParts) sourceHtml [] of
        None \<Rightarrow> None
      | Some (Inl e) \<Rightarrow> Some (Inl e)
      | Some (Inr (substituted, missingMappings)) \<Rightarrow>
          (let currentHtml = cleanHtml d substituted;
               codeOutput = replaceStr diffMarkers [] currentHtml;
               codeOutput = replaceStr (literal ''&lt;!--'') ''<!--''
                              (replaceStr (literal ''--&gt;'') ''-->'' codeOutput);
               previewHtml = buildPreview (splitRe currentHtml diffSplitter) []
           in Some (Inr \<lparr>code = codeOutput, preview = previewHtml,
                          missing = missingMappings\<rparr>)))"

definition staticText :: "string \<Rightarrow> string" where
  \<comment> \<open>the static text of a pattern: the parts that \<open>compilePattern\<close> does not read as a
      variable\<close>
  "staticText pat =
     concat (filter (\<lambda>p. exec varExact p 0 = None) (splitRe pat varSplitter))"

section \<open>The pipeline on an explicit store\<close>

text \<open>
  To say what \<open>migrate\<close> does to the arrays it is given, the arrays and the part objects
  live in a store: an array is a list of references to objects. \<open>migrateH\<close> is \<open>migrate\<close>
  with every allocation and every write made explicit: \<open>[]\<close> and \<open>[...sourceParts]\<close>
  allocate, \<open>sort\<close> writes the array it is called on (\<open>sortedCopy\<close>), \<open>push\<close>
  writes \<open>missingMappings\<close>, and an object literal allocates. \<open>targetMap\<close> is local and is
  kept as a value.
\<close>

record heap =
  arrays :: "nat \<rightharpoonup> nat list"
  objects :: "nat \<rightharpoonup> part"
  nextAddr :: nat

definition newArray :: "nat list \<Rightarrow> heap \<Rightarrow> nat \<times> heap" where
  "newArray xs h =
     (nextAddr h, h\<lparr>arrays := (arrays h)(nextAddr h \<mapsto> xs), nextAddr := Suc (nextAddr h)\<rparr>)"

definition newObject :: "part \<Rightarrow> heap \<Rightarrow> nat \<times> heap" where
  "newObject p h =
     (nextAddr h, h\<lparr>objects := (objects h)(nextAddr h \<mapsto> p), nextAddr := Suc (nextAddr h)\<rparr>)"

definition getArray :: "heap \<Rightarrow> nat \<Rightarrow> nat list" where
  "getArray h a = (case arrays h a of Some xs \<Rightarrow> xs | None \<Rightarrow> [])"

definition getObject :: "heap \<Rightarrow> nat \<Rightarrow> part" where
  "getObject h a = (case objects h a of Some p \<Rightarrow> p | None \<Rightarrow> \<lparr>name = [], pattern = []\<rparr>)"

definition setArray :: "nat \<Rightarrow> nat list \<Rightarrow> heap \<Rightarrow> heap" where
  "setArray a xs h = h\<lparr>arrays := (arrays h)(a \<mapsto> xs)\<rparr>"

definition partsAt :: "heap \<Rightarrow> nat \<Rightarrow> part list" where
  "partsAt h a = map (getObject h) (getArray h a)"

fun migratePartsH ::
  "(string \<rightharpoonup> string) \<Rightarrow> nat list \<Rightarrow> string \<Rightarrow> nat \<Rightarrow> heap
     \<Rightarrow> ((error + string) \<times> heap) option" where
  "migratePartsH targetMap [] currentHtml missingMappings h = Some (Inr currentHtml, h)"
| "migratePartsH targetMap (ref # rest) currentHtml missingMappings h =
     (let sPart = getObject h ref;
          tPattern = targetMapGet targetMap (name sPart) in
      if \<not> truthy tPattern then
        (if test (regex (compilePattern (pattern sPart))) currentHtml
         then (let (entry, h1) = newObject \<lparr>name = name sPart, pattern = pattern sPart\<rparr> h;
                   h2 = setArray missingMappings (getArray h1 missingMappings @ [entry]) h1
               in migratePartsH targetMap rest currentHtml missingMappings h2)
         else migratePartsH targetMap rest currentHtml missingMappings h)
      else
        (case analyzeContainer (pattern sPart) of
           Some containerInfo \<Rightarrow>
             (case migrateBalanced currentHtml sPart tPattern containerInfo of
                None \<Rightarrow> None
              | Some (Inl e) \<Rightarrow> Some (Inl e, h)
              | Some (Inr html') \<Rightarrow> migratePartsH targetMap rest html' missingMappings h)
         | None \<Rightarrow>
             (case migrateRegex currentHtml sPart tPattern of
                Inl e \<Rightarrow> Some (Inl e, h)
              | Inr html' \<Rightarrow> migratePartsH targetMap rest html' missingMappings h)))"

record migrationResultH =
  codeH :: string
  previewH :: string
  missingH :: nat

definition migrateH ::
  "dom \<Rightarrow> heap \<Rightarrow> string \<Rightarrow> nat \<Rightarrow> nat \<Rightarrow> ((error + migrationResultH) \<times> heap) option" where
  "migrateH d h sourceHtml sourceParts targetParts =
     (let targetMap = buildTargetMap (partsAt h targetParts);
          (missingMappings, h1) = newArray [] h;
          (sortedCopy, h2) = newArray (getArray h1 sourceParts) h1;
          h3 = setArray sortedCopy
                 (sortArray (\<lambda>a b. compareParts (getObject h2 a) (getObject h2 b))
                    (getArray h2 sortedCopy)) h2
      in case migratePartsH targetMap (getArray h3 sortedCopy) sourceHtml
                missingMappings h3 of
           None \<Rightarrow> None
         | Some (Inl e, h4) \<Rightarrow> Some (Inl e, h4)
         | Some (Inr substituted, h4) \<Rightarrow>
             (let currentHtml = cleanHtml d substituted;
                  codeOutput = replaceStr diffMarkers [] currentHtml;
                  codeOutput = replaceStr (literal ''&lt;!--'') ''<!--''
                                 (replaceStr (literal ''--&gt;'') ''-->'' codeOutput);
                  previewHtml = buildPreview (splitRe currentHtml diffSplitter) []
              in Some (Inr \<lparr>codeH = codeOutput, previewH = previewHtml,
                              missingH = missingMappings\<rparr>, h4)))"

definition frameExcept :: "nat \<Rightarrow> heap \<Rightarrow> heap \<Rightarrow> bool" where
  \<comment> \<open>nothing allocated in the first store differs in the second, the array \<open>mm\<close> apart\<close>
  "frameExcept mm h h' =
     (nextAddr h \<le> nextAddr h' \<and>
      (\<forall>a. a < nextAddr h \<longrightarrow> (a \<noteq> mm \<longrightarrow> arrays h' a = arrays h a) \<and> objects h' a = objects h a))"

definition sampleHeap :: heap where
  "sampleHeap =
     \<lparr>arrays = [3 \<mapsto> [0, 1], 4 \<mapsto> [2]],
      objects = [0 \<mapsto> \<lparr>name = ''b'', pattern = ''<b>{{t}}</b>''\<rparr>,
                 1 \<mapsto> \<lparr>name = ''gone'', pattern = ''<i>{{t}}</i>''\<rparr>,
                 2 \<mapsto> \<lparr>name = ''b'', pattern = ''<strong>{{t}}</strong>''\<rparr>],
      nextAddr = 5\<rparr>"

section \<open>Inputs of the examples\<close>

definition classA :: string where
  \<comment> \<open>\<open><div class="a">\<close>\<close>
  "classA = ''<div class='' @ [CHR 0x22] @ ''a'' @ [CHR 0x22] @ ''>''"

definition twoTargets :: "part list" where
  "twoTargets = [\<lparr>name = ''a'', pattern = ''X''\<rparr>, \<lparr>name = ''a'', pattern = ''Y''\<rparr>]"

definition outerPart :: part where
  "outerPart = \<lparr>name = ''outer'', pattern = ''<div><b>{{x}}</b></div>''\<rparr>"

definition innerPart :: part where
  "innerPart = \<lparr>name = ''inner'', pattern = ''<b>{{a_rather_long_placeholder}}</b>''\<rparr>"

definition bothTargets :: "part list" where
  "bothTargets = [\<lparr>name = ''outer'', pattern = ''<section>{{x}}</section>''\<rparr>,
                  \<lparr>name = ''inner'', pattern = ''<strong>{{a_rather_long_placeholder}}</strong>''\<rparr>]"

section \<open>A platform for the examples\<close>

text \<open>
  The serializer is the fragment serialization algorithm of the HTML standard. The
  parser is given only on the inputs of the examples, where it returns the tree that the
  standard's parser builds; on any other input its value (one text node) is arbitrary.
\<close>

definition replaceChar :: "char \<Rightarrow> string \<Rightarrow> string \<Rightarrow> string" where
  "replaceChar c by s = concat (map (\<lambda>x. if x = c then by else [x]) s)"

definition escapeString :: "bool \<Rightarrow> string \<Rightarrow> string" where
  "escapeString attributeMode s =
     (let s = replaceChar (CHR ''&'') ''&amp;'' s;
          s = replaceChar (CHR 0xA0) ''&nbsp;'' s;
          s = replaceChar (CHR ''<'') ''&lt;'' s;
          s = replaceChar (CHR ''>'') ''&gt;'' s
      in if attributeMode then replaceChar (CHR 0x22) ''&quot;'' s else s)"

definition serializesAsVoid :: "string \<Rightarrow> bool" where
  "serializesAsVoid tag =
     (tag \<in> set [''area'', ''base'', ''basefont'', ''bgsound'', ''br'', ''col'', ''embed'',
                 ''frame'', ''hr'', ''img'', ''input'', ''keygen'', ''link'', ''meta'',
                 ''param'', ''source'', ''track'', ''wbr''])"

definition rawTextParent :: "string \<Rightarrow> bool" where
  "rawTextParent tag =
     (tag \<in> set [''style'', ''script'', ''xmp'', ''iframe'', ''noembed'', ''noframes'',
                 ''plaintext''])"

fun serializeNode :: "string \<Rightarrow> node \<Rightarrow> string" where
  "serializeNode parent (Element tag attrs kids) =
     ''<'' @ tag
       @ concat (map (\<lambda>(k, v). '' '' @ k @ ''='' @ [CHR 0x22] @ escapeString True v @ [CHR 0x22])
                   attrs)
       @ ''>''
       @ (if serializesAsVoid tag then []
          else concat (map (serializeNode tag) kids) @ ''</'' @ tag @ ''>'')"
| "serializeNode parent (Text t) = (if rawTextParent parent then t else escapeString False t)"
| "serializeNode parent (Comment c) = ''<!--'' @ c @ ''-->''"

definition spanIcon :: string where
  \<comment> \<open>\<open><span class="icon"></span>\<close>\<close>
  "spanIcon = ''<span class='' @ [CHR 0x22] @ ''icon'' @ [CHR 0x22] @ ''></span>''"

definition spanData :: string where
  \<comment> \<open>\<open><span data-x="1"></span>\<close>\<close>
  "spanData = ''<span data-x='' @ [CHR 0x22] @ ''1'' @ [CHR 0x22] @ ''></span>''"

definition sampleParse :: "string \<Rightarrow> node list" where
  "sampleParse s =
     (if s = [] then []
      else if s = ''<span></span>'' then [Element ''span'' [] []]
      else if s = spanIcon then [Element ''span'' [(''class'', ''icon'')] []]
      else if s = spanData then [Element ''span'' [(''data-x'', ''1'')] []]
      else if s = ''<p>a</p><div> <i></i></div>''
        then [Element ''p'' [] [Text ''a''],
              Element ''div'' [] [Text '' '', Element ''i'' [] []]]
      else if s = ''<p>a</p>'' then [Element ''p'' [] [Text ''a'']]
      else if s = ''<plaintext>a'' then [Element ''plaintext'' [] [Text ''a'']]
      else if s = ''<plaintext>a</plaintext>''
        then [Element ''plaintext'' [] [Text ''a</plaintext>'']]
      else [Text s])"

definition sampleDom :: dom where
  "sampleDom =
     \<lparr>parseFragment = sampleParse,
      serializeFragment = (\<lambda>ns. concat (map (serializeNode ''div'') ns))\<rparr>"

section \<open>Notions used in the proofs\<close>

fun minLen :: "re \<Rightarrow> nat" where
  \<comment> \<open>a lower bound on the length of what an expression matches\<close>
  "minLen (Lit a) = 1"
| "minLen (CSet neg items) = 1"
| "minLen (Seq a b) = minLen a + minLen b"
| "minLen (Alt a b) = min (minLen a) (minLen b)"
| "minLen (Group n a) = minLen a"
| "minLen r = 0"

text \<open>
  What an expression can consume, read off its syntax: a back-reference may consume
  anything, and a look-ahead or an anchor consumes nothing.
\<close>

inductive accepts :: "bool \<Rightarrow> re \<Rightarrow> string \<Rightarrow> bool" for ic :: bool where
  aEps: "accepts ic Eps []"
| aLit: "canonicalize ic a = canonicalize ic c \<Longrightarrow> accepts ic (Lit a) [c]"
| aCSet: "list_ex (\<lambda>i. citemMatches ic i c) items \<noteq> neg \<Longrightarrow> accepts ic (CSet neg items) [c]"
| aSeq: "accepts ic a u \<Longrightarrow> accepts ic b v \<Longrightarrow> accepts ic (Seq a b) (u @ v)"
| aAltL: "accepts ic a w \<Longrightarrow> accepts ic (Alt a b) w"
| aAltR: "accepts ic b w \<Longrightarrow> accepts ic (Alt a b) w"
| aStarNil: "accepts ic (Star g a) []"
| aStarStep: "accepts ic a u \<Longrightarrow> accepts ic (Star g a) v \<Longrightarrow> accepts ic (Star g a) (u @ v)"
| aGroup: "accepts ic a w \<Longrightarrow> accepts ic (Group n a) w"
| aBackref: "accepts ic (Backref n) w"
| aNotAhead: "accepts ic (NotAhead a) []"
| aBol: "accepts ic Bol []"
| aEol: "accepts ic Eol []"

definition passes :: "bool \<Rightarrow> re \<Rightarrow> mstate \<Rightarrow> mstate \<Rightarrow> bool" where
  \<comment> \<open>the second state is the first one after a string that the expression accepts\<close>
  "passes ic r st st' =
     (\<exists>w. snd st = w @ snd st' \<and> fst st' = fst st + length w \<and> accepts ic r w)"

fun mayConsume :: "bool \<Rightarrow> re \<Rightarrow> char \<Rightarrow> bool" where
  \<comment> \<open>the character can occur in what the expression consumes\<close>
  "mayConsume ic (Lit a) c = (canonicalize ic a = canonicalize ic c)"
| "mayConsume ic (CSet neg items) c = (list_ex (\<lambda>i. citemMatches ic i c) items \<noteq> neg)"
| "mayConsume ic (Seq a b) c = (mayConsume ic a c \<or> mayConsume ic b c)"
| "mayConsume ic (Alt a b) c = (mayConsume ic a c \<or> mayConsume ic b c)"
| "mayConsume ic (Star g a) c = mayConsume ic a c"
| "mayConsume ic (Group n a) c = mayConsume ic a c"
| "mayConsume ic (Backref n) c = True"
| "mayConsume ic r c = False"

section \<open>Verified properties\<close>

subsection \<open>The matcher moves forward\<close>

lemma passes_here:
  "k st cs = Some res \<Longrightarrow> accepts ic r []
   \<Longrightarrow> \<exists>p' rest' cs'. k (p', rest') cs' = Some res \<and> passes ic r st (p', rest')"
proof -
  assume k: "k st cs = Some res" and a: "accepts ic r []"
  obtain p rest where st: "st = (p, rest)" by (cases st)
  have "passes ic r st (p, rest)"
    unfolding passes_def st using a by (intro exI [of _ "[]"]) simp
  with k st show ?thesis by blast
qed

lemma passes_char:
  "accepts ic r [c] \<Longrightarrow> passes ic r (p, c # rest') (Suc p, rest')"
  unfolding passes_def by (intro exI [of _ "[c]"]) simp

lemma passes_Seq:
  "passes ic a st st' \<Longrightarrow> passes ic b st' st'' \<Longrightarrow> passes ic (Seq a b) st st''"
  by (auto simp: passes_def intro: aSeq)

lemma passes_Star:
  "passes ic a st st' \<Longrightarrow> passes ic (Star g a) st' st'' \<Longrightarrow> passes ic (Star g a) st st''"
  by (auto simp: passes_def intro: aStarStep)

lemma rmatch_sound:
  "rmatch ic r k st cs = Some res
   \<Longrightarrow> \<exists>p' rest' cs'. k (p', rest') cs' = Some res \<and> passes ic r st (p', rest')"
proof (induction ic r k st cs arbitrary: res rule: rmatch.induct)
  case (1 ic k st cs)
  then have "k st cs = Some res" by simp
  from passes_here [of k, OF this aEps] show ?case .
next
  case (2 ic a k p rest cs)
  then obtain c rest' where "rest = c # rest'" and "canonicalize ic a = canonicalize ic c"
    and "k (Suc p, rest') cs = Some res"
    by (auto split: list.splits if_splits)
  with passes_char [OF aLit, of ic a c p rest'] show ?case by auto
next
  case (3 ic neg items k p rest cs)
  then obtain c rest' where "rest = c # rest'"
    and "list_ex (\<lambda>i. citemMatches ic i c) items \<noteq> neg"
    and "k (Suc p, rest') cs = Some res"
    by (auto split: list.splits if_splits)
  with passes_char [OF aCSet, of ic c items neg p rest'] show ?case by auto
next
  case (4 ic a b k st cs)
  from "4.prems" have "rmatch ic a (\<lambda>st' cs'. rmatch ic b k st' cs') st cs = Some res" by simp
  from "4.IH"(2) [OF this] obtain p1 rest1 cs1 where
    m1: "rmatch ic b k (p1, rest1) cs1 = Some res" and r1: "passes ic a st (p1, rest1)"
    by blast
  from "4.IH"(1) [OF m1] obtain p2 rest2 cs2 where
    m2: "k (p2, rest2) cs2 = Some res" and r2: "passes ic b (p1, rest1) (p2, rest2)"
    by blast
  from passes_Seq [OF r1 r2] m2 show ?case by auto
next
  case (5 ic a b k st cs)
  show ?case
  proof (cases "rmatch ic a k st cs")
    case None
    with "5.prems" have "rmatch ic b k st cs = Some res" by simp
    from "5.IH"(2) [OF None this] show ?thesis
      by (auto simp: passes_def intro: aAltR)
  next
    case (Some r)
    with "5.prems" have "rmatch ic a k st cs = Some res" by simp
    from "5.IH"(1) [OF this] show ?thesis
      by (auto simp: passes_def intro: aAltL)
  qed
next
  case (6 ic greedy a k st cs)
  let ?k' = "\<lambda>st' cs'. if length (snd st') < length (snd st)
                            then rmatch ic (Star greedy a) k st' cs' else None"
  have inner: "\<exists>p' rest' cs'. k (p', rest') cs' = Some res
                 \<and> passes ic (Star greedy a) st (p', rest')"
    if m: "rmatch ic a ?k' st cs = Some res" and g: "greedy \<or> k st cs = None"
  proof -
    have "\<exists>p1 rest1 cs1. ?k' (p1, rest1) cs1 = Some res \<and> passes ic a st (p1, rest1)"
    proof (cases greedy)
      case True
      from "6.IH"(2) [OF True m] show ?thesis .
    next
      case False
      with g have "k st cs = None" by simp
      from "6.IH"(4) [OF False this m] show ?thesis .
    qed
    then obtain p1 rest1 cs1 where k1: "?k' (p1, rest1) cs1 = Some res"
      and r1: "passes ic a st (p1, rest1)"
      by blast
    from k1 have lt: "length (snd (p1, rest1)) < length (snd st)"
      and m1: "rmatch ic (Star greedy a) k (p1, rest1) cs1 = Some res"
      by (auto split: if_splits)
    have "\<exists>p2 rest2 cs2. k (p2, rest2) cs2 = Some res
            \<and> passes ic (Star greedy a) (p1, rest1) (p2, rest2)"
    proof (cases greedy)
      case True
      from "6.IH"(1) [OF True lt m1] show ?thesis .
    next
      case False
      with g have "k st cs = None" by simp
      from "6.IH"(3) [OF False this lt m1] show ?thesis .
    qed
    then obtain p2 rest2 cs2 where k2: "k (p2, rest2) cs2 = Some res"
      and r2: "passes ic (Star greedy a) (p1, rest1) (p2, rest2)" by auto
    from passes_Star [OF r1 r2] k2 show ?thesis by blast
  qed
  have unf: "rmatch ic (Star greedy a) k st cs =
      (if greedy then (case rmatch ic a ?k' st cs of Some r \<Rightarrow> Some r | None \<Rightarrow> k st cs)
       else (case k st cs of Some r \<Rightarrow> Some r | None \<Rightarrow> rmatch ic a ?k' st cs))"
    by (subst rmatch.simps) (rule refl)
  from "6.prems" have p:
    "(if greedy then (case rmatch ic a ?k' st cs of Some r \<Rightarrow> Some r | None \<Rightarrow> k st cs)
       else (case k st cs of Some r \<Rightarrow> Some r | None \<Rightarrow> rmatch ic a ?k' st cs)) = Some res"
    by (simp only: unf)
  show ?case
  proof (cases greedy)
    case True
    show ?thesis
    proof (cases "rmatch ic a ?k' st cs")
      case None
      with p True have "k st cs = Some res" by (simp del: rmatch.simps)
      from passes_here [of k, OF this aStarNil] show ?thesis .
    next
      case (Some r)
      with p True have "rmatch ic a ?k' st cs = Some res" by (simp del: rmatch.simps)
      from inner [OF this] True show ?thesis by simp
    qed
  next
    case False
    show ?thesis
    proof (cases "k st cs")
      case None
      with p False have "rmatch ic a ?k' st cs = Some res" by (simp del: rmatch.simps)
      from inner [OF this] None show ?thesis by simp
    next
      case (Some r)
      with p False have "k st cs = Some res" by (simp del: rmatch.simps)
      from passes_here [of k, OF this aStarNil] show ?thesis .
    qed
  qed
next
  case (7 ic n a k st cs)
  from "7.prems" have "rmatch ic a (\<lambda>st' cs'. k st' (cs'(n \<mapsto> take (fst st' - fst st) (snd st)))) st cs
    = Some res" by simp
  from "7.IH" [OF this] show ?case by (auto simp: passes_def intro: aGroup)
next
  case (8 ic n k p rest cs)
  show ?case
  proof (cases "cs n")
    case None
    with "8.prems" have "k (p, rest) cs = Some res" by simp
    from passes_here [of k, OF this aBackref] show ?thesis .
  next
    case (Some s)
    with "8.prems" have c: "length s \<le> length rest"
      and k: "k (p + length s, drop (length s) rest) cs = Some res"
      by (auto split: if_splits)
    have "passes ic (Backref n) (p, rest) (p + length s, drop (length s) rest)"
      unfolding passes_def using c
      by (intro exI [of _ "take (length s) rest"]) (simp add: aBackref)
    with k show ?thesis by auto
  qed
next
  case (9 ic a k st cs)
  then have "k st cs = Some res" by (auto split: option.splits)
  from passes_here [of k, OF this aNotAhead] show ?case .
next
  case (10 ic k p rest cs)
  then have "k (p, rest) cs = Some res" by (auto split: if_splits)
  from passes_here [of k, OF this aBol] show ?case .
next
  case (11 ic k p rest cs)
  then have "k (p, rest) cs = Some res" by (auto split: if_splits)
  from passes_here [of k, OF this aEol] show ?case .
qed

lemma accepts_minLen: "accepts ic r w \<Longrightarrow> minLen r \<le> length w"
  by (induction rule: accepts.induct) auto

lemma matchAt_bounds:
  assumes "matchAt r p rest = Some mt"
  shows "mIndex mt = p" and "mText mt = take (length (mText mt)) rest"
    and "length (mText mt) \<le> length rest" and "minLen (ast r) \<le> length (mText mt)"
    and "accepts (ignoreCase r) (ast r) (mText mt)"
proof -
  from assms obtain st' cs where
    m: "rmatch (ignoreCase r) (ast r) (\<lambda>st' cs'. Some (st', cs')) (p, rest) Map.empty = Some (st', cs)"
    and mt: "mt = \<lparr>mIndex = p, mText = take (fst st' - p) rest, mGroups = cs\<rparr>"
    by (auto simp: matchAt_def split: option.splits)
  from rmatch_sound [OF m] have "passes (ignoreCase r) (ast r) (p, rest) st'" by auto
  then obtain w where w: "rest = w @ snd st'" "fst st' = p + length w"
    "accepts (ignoreCase r) (ast r) w"
    by (auto simp: passes_def)
  then have "take (fst st' - p) rest = w" by simp
  with mt have t: "mText mt = w" and i: "mIndex mt = p" by simp_all
  show "mIndex mt = p" by (rule i)
  show "mText mt = take (length (mText mt)) rest" using t w(1) by simp
  show "length (mText mt) \<le> length rest" using t w(1) by simp
  show "accepts (ignoreCase r) (ast r) (mText mt)" using t w(3) by simp
  then show "minLen (ast r) \<le> length (mText mt)" by (rule accepts_minLen)
qed

lemma search_bounds:
  "search r p rest = Some mt \<Longrightarrow>
     p \<le> mIndex mt \<and> mEnd mt \<le> p + length rest \<and> minLen (ast r) \<le> length (mText mt)
     \<and> mText mt = take (length (mText mt)) (drop (mIndex mt - p) rest)"
proof (induction rest arbitrary: p)
  case Nil
  then have "matchAt r p [] = Some mt" by (auto split: option.splits)
  from matchAt_bounds [OF this] show ?case by (simp add: mEnd_def)
next
  case (Cons c rest)
  show ?case
  proof (cases "matchAt r p (c # rest)")
    case None
    with Cons.prems have "search r (Suc p) rest = Some mt" by simp
    from Cons.IH [OF this] have ih: "Suc p \<le> mIndex mt" "mEnd mt \<le> Suc p + length rest"
      "minLen (ast r) \<le> length (mText mt)"
      "mText mt = take (length (mText mt)) (drop (mIndex mt - Suc p) rest)" by auto
    from ih(1) have "mIndex mt - p = Suc (mIndex mt - Suc p)" by simp
    then have "drop (mIndex mt - p) (c # rest) = drop (mIndex mt - Suc p) rest" by simp
    with ih show ?thesis by simp
  next
    case (Some mt')
    with Cons.prems have "matchAt r p (c # rest) = Some mt" by simp
    from matchAt_bounds [OF this] show ?thesis by (simp add: mEnd_def)
  qed
qed

lemma exec_bounds:
  assumes "exec r s lastIndex = Some mt"
  shows "lastIndex \<le> mIndex mt" and "mEnd mt \<le> length s"
    and "minLen (ast r) \<le> length (mText mt)"
    and "mText mt = take (length (mText mt)) (drop (mIndex mt) s)"
proof -
  from assms have le: "lastIndex \<le> length s"
    and s: "search r lastIndex (drop lastIndex s) = Some mt"
    by (auto simp: exec_def split: if_splits)
  from search_bounds [OF s] le
  show "lastIndex \<le> mIndex mt" and "mEnd mt \<le> length s"
    and "minLen (ast r) \<le> length (mText mt)"
    and "mText mt = take (length (mText mt)) (drop (mIndex mt) s)"
    by (auto simp: add.commute)
qed

lemma scanBalanced_lower:
  "scanBalanced r html lastIndex depth = Some ci \<Longrightarrow> lastIndex \<le> ci"
proof (induction r html lastIndex depth rule: scanBalanced.induct)
  case (1 r html lastIndex depth)
  from "1.prems" obtain mt where e: "exec r html lastIndex = Some mt"
    by (subst (asm) scanBalanced.simps) (auto split: option.splits)
  let ?d = "if capture mt 1 \<noteq> [] then depth + 1
            else if capture mt 2 \<noteq> [] then depth - 1 else depth"
  show ?case
  proof (cases "?d = 0")
    case True
    with "1.prems" e have "ci = mIndex mt"
      by (subst (asm) scanBalanced.simps) (simp add: Let_def)
    with exec_bounds(1) [OF e] show ?thesis by simp
  next
    case False
    with "1.prems" e have g: "lastIndex < mEnd mt \<and> lastIndex \<le> length html"
      and rec: "scanBalanced r html (mEnd mt) ?d = Some ci"
      by (subst (asm) scanBalanced.simps, simp add: Let_def split: if_splits)+
    from "1.IH" [OF e refl False g rec] g show ?thesis by simp
  qed
qed

lemma findChar_bounds:
  "findChar c p xs = Some i \<Longrightarrow> p \<le> i \<and> i < p + length xs \<and> xs ! (i - p) = c"
proof (induction xs arbitrary: p)
  case Nil
  then show ?case by simp
next
  case (Cons x xs)
  show ?case
  proof (cases "x = c")
    case True
    with Cons.prems show ?thesis by simp
  next
    case False
    with Cons.prems have "findChar c (Suc p) xs = Some i" by simp
    from Cons.IH [OF this] show ?thesis by (auto simp: Suc_diff_le)
  qed
qed

lemma indexOfChar_bounds:
  assumes "indexOfChar s c from = Some i"
  shows "from \<le> i" and "i < length s"
proof -
  from assms have f: "findChar c from (drop from s) = Some i" by (simp add: indexOfChar_def)
  from findChar_bounds [OF f] show "from \<le> i" by simp
  from findChar_bounds [OF f] have "i < from + length (drop from s)" by simp
  moreover from findChar_bounds [OF f] have "drop from s \<noteq> []" by auto
  ultimately show "i < length s" by simp
qed

subsection \<open>TemplateRenderer\<close>

lemma renderTarget_empty_quoted_href:
  "renderTarget (''<a href='' @ [CHR 0x22] @ ''{{url}}'' @ [CHR 0x22] @ ''>{{text}}</a>'')
     [(''url'', []), (''text'', ''Click'')] = ''Click''"
  by code_simp

lemma renderTarget_href_without_value:
  "renderTarget ''<a href>Click</a>'' [] = ''<a href>Click</a>''"
  by code_simp

text \<open>
  C1. The claim is that \<open>renderTarget\<close> replaces an anchor by its inner content exactly
  when the value of its \<open>href\<close> is empty, and leaves an anchor whose \<open>href\<close> has a
  non-empty value intact. The second of the three clean-up expressions, commented
  ``no quotes'', matches \<open>href=\<close> followed by one or more characters that are no quote:
  an anchor whose \<open>href\<close> has the non-empty unquoted value \<open>x\<close> is replaced by its
  content.
\<close>

theorem renderTarget_unquoted_href_unwrapped:
  "renderTarget ''<a href=x>Click</a>'' [] = ''Click''"
  by code_simp

subsection \<open>PartDefinitionParser\<close>

text \<open>
  C3. The claim is that a part is appended only if its name and its trimmed pattern body
  are both non-empty, so that every part returned has a non-empty pattern. The code tests
  the pattern before it trims it: a heading followed by \<open>## Pattern\<close> and one line break
  collects the body \<open>\n\<close>, which passes the test and is then trimmed to the empty string.
\<close>

theorem parseMarkdownParts_blank_body_kept:
  "parseMarkdownParts (''# A'' @ [CHR 0x0A] @ ''## Pattern'' @ [CHR 0x0A])
     = [\<lparr>name = ''A'', pattern = []\<rparr>]"
  by code_simp

subsection \<open>BalancedMatcher: the nested example\<close>

text \<open>
  C5. The pattern \<open><div class="a">{{content}}</div>\<close> is a container with tag \<open>div\<close>
  and prefix \<open><div class="a">\<close>. Over the text
  \<open><div class="a"><div class="a">X</div>Y</div>\<close> the scan from the end of the prefix
  (index 15, depth 1) passes the inner open tag and the inner close tag and stops at the
  close tag at index 38, and the loop reports one span, from 0 to 44, whose content is
  \<open><div class="a">X</div>Y\<close>.
\<close>

theorem balanced_capture_example:
  "analyzeContainer (classA @ ''{{content}}</div>'')
     = Some \<lparr>tagName = ''div'', startPattern = classA, variable = ''content''\<rparr>
   \<and> findBalancedCloseIndex (classA @ classA @ ''X</div>Y</div>'') 15 ''div'' = Some 38
   \<and> collectMatches (regex (compilePattern classA)) ''div''
         (classA @ classA @ ''X</div>Y</div>'') 0
       = Some [\<lparr>spanStart = 0, spanEnd = 44, content = classA @ ''X</div>Y''\<rparr>]"
  by code_simp

lemma migrateBalanced_example:
  "migrateBalanced (classA @ classA @ ''X</div>Y</div>'')
     \<lparr>name = ''box'', pattern = classA @ ''{{content}}</div>''\<rparr> (JStr ''[{{content}}]'')
     \<lparr>tagName = ''div'', startPattern = classA, variable = ''content''\<rparr>
   = Some (Inr (diffStart @ ''['' @ classA @ ''X</div>Y]'' @ diffEnd))"
  by code_simp

subsection \<open>BalancedMatcher: the spans\<close>

lemma search_matchAt:
  "search r p rest = Some mt \<Longrightarrow> \<exists>i. i \<le> length rest \<and> matchAt r (p + i) (drop i rest) = Some mt"
proof (induction rest arbitrary: p)
  case Nil
  then have "matchAt r p [] = Some mt" by (auto split: option.splits)
  then show ?case by simp
next
  case (Cons c rest)
  show ?case
  proof (cases "matchAt r p (c # rest)")
    case None
    with Cons.prems have "search r (Suc p) rest = Some mt" by simp
    from Cons.IH [OF this] obtain i where "i \<le> length rest"
      and "matchAt r (Suc p + i) (drop i rest) = Some mt" by blast
    then show ?thesis by (intro exI [of _ "Suc i"]) simp
  next
    case (Some mt')
    with Cons.prems have "matchAt r p (c # rest) = Some mt" by simp
    then show ?thesis by (intro exI [of _ 0]) simp
  qed
qed

lemma exec_matchAt:
  assumes "exec r s lastIndex = Some mt"
  shows "\<exists>p. lastIndex \<le> p \<and> p \<le> length s \<and> matchAt r p (drop p s) = Some mt"
proof -
  from assms have le: "lastIndex \<le> length s"
    and s: "search r lastIndex (drop lastIndex s) = Some mt"
    by (auto simp: exec_def split: if_splits)
  from search_matchAt [OF s] obtain i where "i \<le> length (drop lastIndex s)"
    and "matchAt r (lastIndex + i) (drop i (drop lastIndex s)) = Some mt" by blast
  with le show ?thesis by (intro exI [of _ "lastIndex + i"]) (simp add: add.commute)
qed

lemma exec_accepts:
  assumes "exec r s lastIndex = Some mt"
  shows "accepts (ignoreCase r) (ast r) (mText mt)"
  using exec_matchAt [OF assms] matchAt_bounds(5) by blast

lemma collectMatches_spans:
  "collectMatches r tag html lastIndex = Some ms \<Longrightarrow>
     sorted_wrt (\<lambda>a b. spanEnd a \<le> spanStart b) ms \<and>
     (\<forall>m \<in> set ms.
        lastIndex \<le> spanStart m \<and> spanStart m < spanEnd m \<and> spanEnd m \<le> length html \<and>
        (\<exists>contentStart closeIndex.
           spanStart m \<le> contentStart \<and>
           findBalancedCloseIndex html contentStart tag = Some closeIndex \<and>
           content m = substring html contentStart closeIndex \<and>
           closeIndex < spanEnd m))"
proof (induction r tag html lastIndex arbitrary: ms rule: collectMatches.induct)
  case (1 r tag html lastIndex)
  show ?case
  proof (cases "exec r html lastIndex")
    case None
    with "1.prems" have "ms = []" by (subst (asm) collectMatches.simps) simp
    then show ?thesis by simp
  next
    case (Some mt)
    let ?cs = "mIndex mt + length (mText mt)"
    from exec_bounds(1) [OF Some] have lo: "lastIndex \<le> mIndex mt" .
    show ?thesis
    proof (cases "findBalancedCloseIndex html ?cs tag")
      case None
      with "1.prems" Some have g: "lastIndex < ?cs \<and> lastIndex \<le> length html"
        and rec: "collectMatches r tag html ?cs = Some ms"
        by (subst (asm) collectMatches.simps, simp add: Let_def split: if_splits)+
      from "1.IH"(1) [OF Some refl refl None g rec] g show ?thesis by auto
    next
      case (Some ci) note close = this
      let ?te = "case indexOfChar html (CHR ''>'') ci of None \<Rightarrow> 0 | Some i \<Rightarrow> i + 1"
      let ?found = "\<lparr>spanStart = mIndex mt, spanEnd = ?te, content = substring html ?cs ci\<rparr>"
      from "1.prems" \<open>exec r html lastIndex = Some mt\<close> close
      have g: "lastIndex < ?te \<and> lastIndex \<le> length html"
        and rec: "map_option (Cons ?found) (collectMatches r tag html ?te) = Some ms"
        by (subst (asm) collectMatches.simps, simp add: Let_def split: if_splits)+
      from rec obtain ms' where ms': "collectMatches r tag html ?te = Some ms'"
        and ms: "ms = ?found # ms'" by auto
      from g obtain i where i: "indexOfChar html (CHR ''>'') ci = Some i" and te: "?te = i + 1"
        by (cases "indexOfChar html (CHR ''>'') ci") auto
      from indexOfChar_bounds [OF i] have ib: "ci \<le> i" "i < length html" .
      from close have "?cs \<le> ci"
        unfolding findBalancedCloseIndex_def by (rule scanBalanced_lower)
      with ib te have f: "mIndex mt < ?te" "?te \<le> length html" "ci < ?te" "mIndex mt \<le> ?cs"
        by simp_all
      from "1.IH"(2) [OF \<open>exec r html lastIndex = Some mt\<close> refl refl close refl refl refl g ms']
      have ih: "sorted_wrt (\<lambda>a b. spanEnd a \<le> spanStart b) ms'"
        and ih2: "\<forall>m \<in> set ms'. ?te \<le> spanStart m \<and> spanStart m < spanEnd m
            \<and> spanEnd m \<le> length html \<and>
            (\<exists>contentStart closeIndex.
               spanStart m \<le> contentStart \<and>
               findBalancedCloseIndex html contentStart tag = Some closeIndex \<and>
               content m = substring html contentStart closeIndex \<and>
               closeIndex < spanEnd m)"
        by blast+
      have "sorted_wrt (\<lambda>a b. spanEnd a \<le> spanStart b) ms"
        using ih ih2 ms by auto
      moreover have "\<forall>m \<in> set ms'. lastIndex \<le> spanStart m"
        using ih2 g by force
      moreover have "\<exists>contentStart closeIndex.
           mIndex mt \<le> contentStart \<and>
           findBalancedCloseIndex html contentStart tag = Some closeIndex \<and>
           substring html ?cs ci = substring html contentStart closeIndex \<and>
           closeIndex < ?te"
        using close f by blast
      ultimately show ?thesis
        using ms ih2 lo f by (simp del: split_paired_Ex)
    qed
  qed
qed

lemma toUpperChar_not_upper:
  assumes "x \<notin> set upperChars" and "toUpperChar c = x"
  shows "c = x"
proof (cases "map_of (zip lowerChars upperChars) c")
  case None
  with assms(2) show ?thesis by (simp add: toUpperChar_def)
next
  case (Some u)
  then have "u \<in> set upperChars" by (auto dest!: map_of_SomeD set_zip_rightD)
  moreover from Some assms(2) have "u = x" by (simp add: toUpperChar_def)
  ultimately show ?thesis using assms(1) by simp
qed

lemma toUpperChar_fixed:
  assumes "x \<notin> set lowerChars"
  shows "toUpperChar x = x"
proof -
  have "map_of (zip lowerChars upperChars) x = None"
    using assms by (simp add: map_of_eq_None_iff lowerChars_def upperChars_def)
  then show ?thesis by (simp add: toUpperChar_def)
qed

lemma canonicalize_gt:
  assumes "canonicalize ic (CHR ''>'') = canonicalize ic c"
  shows "c = CHR ''>''"
proof (cases ic)
  case False
  with assms show ?thesis by (simp add: canonicalize_def)
next
  case True
  have "toUpperChar (CHR ''>'') = CHR ''>''"
    by (rule toUpperChar_fixed) (simp add: lowerChars_def)
  with assms True have "toUpperChar c = CHR ''>''" by (simp add: canonicalize_def)
  moreover have "CHR ''>'' \<notin> set upperChars" by (simp add: upperChars_def)
  ultimately show ?thesis by (rule toUpperChar_not_upper [rotated])
qed

inductive_cases accepts_EpsE: "accepts ic Eps w"
inductive_cases accepts_LitE: "accepts ic (Lit a) w"
inductive_cases accepts_CSetE: "accepts ic (CSet neg items) w"
inductive_cases accepts_SeqE: "accepts ic (Seq a b) w"
inductive_cases accepts_AltE: "accepts ic (Alt a b) w"
inductive_cases accepts_GroupE: "accepts ic (Group n a) w"
inductive_cases accepts_BolE: "accepts ic Bol w"
inductive_cases accepts_EolE: "accepts ic Eol w"

lemma accepts_ends_gt:
  assumes "accepts ic (Seq a (Seq b (Seq c (Seq (Lit (CHR ''>'')) Eps)))) w"
  shows "CHR ''>'' \<in> set w"
proof -
  from assms obtain u v x y z where "w = u @ v @ x @ y @ z" and "accepts ic (Lit (CHR ''>'')) y"
    by (auto elim!: accepts_SeqE)
  moreover from this(2) obtain c' where "y = [c']" and "canonicalize ic (CHR ''>'') = canonicalize ic c'"
    by (auto elim: accepts_LitE)
  ultimately show ?thesis using canonicalize_gt by auto
qed

lemma tagScanner_minLen: "1 \<le> minLen (ast (tagScanner t))"
  by (simp add: tagScanner_def lits_def)

lemma tagScanner_match:
  assumes "matchAt (tagScanner t) p rest = Some mt"
  shows "capture mt 1 \<noteq> [] \<or> CHR ''>'' \<in> set (mText mt)"
proof -
  let ?A = "seqs [Lit (CHR ''<''), lits t, CSet False [CSpace, CChar (CHR ''>'')]]"
  let ?B = "seqs [lits ''</'', lits t, spaces, Lit (CHR ''>'')]"
  let ?K = "\<lambda>st' cs'. Some (st', cs')"
  from assms obtain st' cs where
    m: "rmatch True (Alt (Group 1 ?A) (Group 2 ?B)) ?K (p, rest) Map.empty = Some (st', cs)"
    and mt: "mt = \<lparr>mIndex = p, mText = take (fst st' - p) rest, mGroups = cs\<rparr>"
    by (auto simp: matchAt_def tagScanner_def split: option.splits)
  show ?thesis
  proof (cases "rmatch True (Group 1 ?A) ?K (p, rest) Map.empty")
    case (Some r)
    with m have "rmatch True (Group 1 ?A) ?K (p, rest) Map.empty = Some (st', cs)" by simp
    then have "rmatch True ?A (\<lambda>st' cs'. ?K st' (cs'(1 \<mapsto> take (fst st' - p) rest))) (p, rest) Map.empty
                 = Some (st', cs)" by simp
    from rmatch_sound [OF this] obtain p' rest' cs' where
      k: "cs = cs'(1 \<mapsto> take (p' - p) rest)" and ps: "passes True ?A (p, rest) (p', rest')"
      by auto
    from ps obtain w where w: "rest = w @ rest'" "p' = p + length w" "accepts True ?A w"
      by (auto simp: passes_def)
    from accepts_minLen [OF w(3)] have "w \<noteq> []" by auto
    with k w mt show ?thesis by (simp add: capture_def)
  next
    case None
    with m have "rmatch True (Group 2 ?B) ?K (p, rest) Map.empty = Some (st', cs)" by simp
    from rmatch_sound [OF this] obtain w where w: "rest = w @ snd st'" "fst st' = p + length w"
      "accepts True (Group 2 ?B) w"
      by (auto simp: passes_def)
    from w(3) have "accepts True ?B w" by (auto elim: accepts_GroupE)
    then have "CHR ''>'' \<in> set w"
      by (intro accepts_ends_gt [of True "lits ''</''" "lits t" spaces w]) simp
    with w mt show ?thesis by simp
  qed
qed

lemma findChar_Some:
  "c \<in> set xs \<Longrightarrow> \<exists>i. findChar c p xs = Some i"
  by (induction xs arbitrary: p) auto

lemma scanBalanced_close_tag:
  "scanBalanced (tagScanner t) html lastIndex depth = Some ci \<Longrightarrow> 1 \<le> depth
   \<Longrightarrow> \<exists>i. indexOfChar html (CHR ''>'') ci = Some i"
proof (induction "tagScanner t" html lastIndex depth rule: scanBalanced.induct)
  case (1 html lastIndex depth)
  let ?r = "tagScanner t"
  from "1.prems"(1) obtain mt where e: "exec ?r html lastIndex = Some mt"
    by (subst (asm) scanBalanced.simps) (auto split: option.splits)
  let ?d = "if capture mt 1 \<noteq> [] then depth + 1
            else if capture mt 2 \<noteq> [] then depth - 1 else depth"
  show ?case
  proof (cases "?d = 0")
    case True
    with "1.prems"(1) e have ci: "ci = mIndex mt"
      by (subst (asm) scanBalanced.simps) (simp add: Let_def)
    from True "1.prems"(2) have "capture mt 1 = []" by (auto split: if_splits)
    moreover from exec_matchAt [OF e] obtain p where "matchAt ?r p (drop p html) = Some mt"
      by blast
    ultimately have "CHR ''>'' \<in> set (mText mt)" using tagScanner_match by blast
    with exec_bounds(4) [OF e] have "CHR ''>'' \<in> set (drop (mIndex mt) html)"
      by (metis in_set_takeD)
    from findChar_Some [OF this] ci show ?thesis by (simp add: indexOfChar_def)
  next
    case False
    with "1.prems"(1) e have g: "lastIndex < mEnd mt \<and> lastIndex \<le> length html"
      and rec: "scanBalanced ?r html (mEnd mt) ?d = Some ci"
      by (subst (asm) scanBalanced.simps, simp add: Let_def split: if_splits)+
    from False "1.prems"(2) have "1 \<le> ?d" by (auto split: if_splits)
    from "1.hyps" [OF e refl False g rec this] show ?thesis .
  qed
qed

lemma collectMatches_returns:
  assumes "1 \<le> minLen (ast r)"
  shows "\<exists>ms. collectMatches r tag html lastIndex = Some ms"
  using assms
proof (induction r tag html lastIndex rule: collectMatches.induct)
  case (1 r tag html lastIndex)
  show ?case
  proof (cases "exec r html lastIndex")
    case None
    then show ?thesis by (subst collectMatches.simps) simp
  next
    case (Some mt)
    let ?cs = "mIndex mt + length (mText mt)"
    from Some have le: "lastIndex \<le> length html" by (auto simp: exec_def split: if_splits)
    from exec_bounds(1,3) [OF Some] "1.prems" have lo: "lastIndex < ?cs" by simp
    show ?thesis
    proof (cases "findBalancedCloseIndex html ?cs tag")
      case None
      from "1.IH"(1) [OF Some refl refl None conjI [OF lo le] "1.prems"]
      obtain ms where "collectMatches r tag html ?cs = Some ms" by blast
      with Some None lo le show ?thesis
        by (subst collectMatches.simps) (simp add: Let_def)
    next
      case (Some ci) note close = this
      let ?te = "case indexOfChar html (CHR ''>'') ci of None \<Rightarrow> 0 | Some i \<Rightarrow> i + 1"
      from close have sb: "scanBalanced (tagScanner (toLowerCase tag)) html ?cs 1 = Some ci"
        by (simp add: findBalancedCloseIndex_def)
      from scanBalanced_close_tag [OF sb] obtain i
        where i: "indexOfChar html (CHR ''>'') ci = Some i" by auto
      from indexOfChar_bounds(1) [OF i] scanBalanced_lower [OF sb] lo i
      have g: "lastIndex < ?te" by simp
      from "1.IH"(2) [OF \<open>exec r html lastIndex = Some mt\<close> refl refl close refl refl refl
                        conjI [OF g le] "1.prems"]
      obtain ms where "collectMatches r tag html ?te = Some ms" by blast
      with \<open>exec r html lastIndex = Some mt\<close> close g le show ?thesis
        by (subst collectMatches.simps) (simp add: Let_def)
    qed
  qed
qed

declare splitLoop.simps [simp del] execAll.simps [simp del] scanBalanced.simps [simp del]
  collectMatches.simps [simp del]

lemma accepts_chars: "accepts ic r w \<Longrightarrow> c \<in> set w \<Longrightarrow> mayConsume ic r c"
  by (induction rule: accepts.induct) auto

lemma substring_between:
  "p \<le> q \<Longrightarrow> q \<le> length s \<Longrightarrow> substring s p q = take (q - p) (drop p s)"
  by (simp add: substring_def Let_def min_def max_def)

lemma drop_split_at:
  "p \<le> q \<Longrightarrow> drop p s = take (q - p) (drop p s) @ drop q s"
  by (metis append_take_drop_id drop_drop le_add_diff_inverse2)

lemma splitLoop_covers:
  assumes nm: "\<And>q rest mt. matchAt r q rest = Some mt \<Longrightarrow> c \<notin> set (mText mt)"
  shows "c \<in> set (drop p s) \<Longrightarrow> p \<le> q \<Longrightarrow> \<exists>piece \<in> set (splitLoop r s p q). c \<in> set piece"
  using nm
proof (induction r s p q rule: splitLoop.induct)
  case (1 r s p q)
  note c = "1.prems"(1) and pq = "1.prems"(2) and nm = "1.prems"(3)
  show ?case
  proof (cases "q < length s")
    case False
    then have "splitLoop r s p q = [substring s p (length s)]"
      by (subst splitLoop.simps) simp
    moreover have "substring s p (length s) = drop p s"
      by (simp add: substring_def Let_def min_def max_def)
    ultimately show ?thesis using c by simp
  next
    case True
    show ?thesis
    proof (cases "matchAt r q (drop q s)")
      case None
      from "1.IH"(1) [OF True None c _ nm] pq
      have "\<exists>piece \<in> set (splitLoop r s p (Suc q)). c \<in> set piece" by simp
      moreover from True None have "splitLoop r s p q = splitLoop r s p (Suc q)"
        by (subst splitLoop.simps) simp
      ultimately show ?thesis by simp
    next
      case (Some mt)
      let ?e = "min (mEnd mt) (length s)"
      from matchAt_bounds [OF Some] have mi: "mIndex mt = q"
        and mtxt: "mText mt = take (length (mText mt)) (drop q s)"
        and mlen: "length (mText mt) \<le> length (drop q s)" by auto
      from mi mlen True have e: "?e = q + length (mText mt)" by (simp add: mEnd_def)
      show ?thesis
      proof (cases "?e = p \<or> ?e < q")
        case skip: True
        from "1.IH"(2) [OF True Some refl skip c _ nm] pq
        have "\<exists>piece \<in> set (splitLoop r s p (Suc q)). c \<in> set piece" by simp
        moreover from True Some skip have "splitLoop r s p q = splitLoop r s p (Suc q)"
          by (subst splitLoop.simps) (simp add: Let_def)
        ultimately show ?thesis by simp
      next
        case cut: False
        let ?tail = "if ?e = q then splitLoop r s q (Suc q) else splitLoop r s ?e ?e"
        from True Some cut have unf: "splitLoop r s p q
            = substring s p q # map (capture mt) [1 ..< Suc (ngroups (ast r))] @ ?tail"
          by (subst splitLoop.simps) (simp add: Let_def)
        from c drop_split_at [OF pq, of s]
        have "c \<in> set (take (q - p) (drop p s)) \<or> c \<in> set (drop q s)" by (metis Un_iff set_append)
        then show ?thesis
        proof
          assume "c \<in> set (take (q - p) (drop p s))"
          with substring_between [OF pq, of s] True have "c \<in> set (substring s p q)" by simp
          with unf show ?thesis by simp
        next
          assume cq: "c \<in> set (drop q s)"
          have "drop q s = mText mt @ drop ?e s"
            using mtxt e by (metis add.commute append_take_drop_id drop_drop)
          with cq nm [OF Some] have ce: "c \<in> set (drop ?e s)" by (metis Un_iff set_append)
          have "\<exists>piece \<in> set ?tail. c \<in> set piece"
          proof (cases "?e = q")
            case eq: True
            from "1.IH"(3) [OF True Some refl cut eq cq _ nm] eq show ?thesis by simp
          next
            case ne: False
            from "1.IH"(4) [OF True Some refl cut ne ce _ nm] ne show ?thesis by simp
          qed
          with unf show ?thesis by auto
        qed
      qed
    qed
  qed
qed

lemma exec_text_subset:
  assumes "exec r s lastIndex = Some mt"
  shows "set (mText mt) \<subseteq> set s"
proof -
  from exec_bounds(4) [OF assms] have "set (mText mt) \<subseteq> set (drop (mIndex mt) s)"
    by (metis set_take_subset)
  then show ?thesis using set_drop_subset by fastforce
qed

lemma openTagHead_lt:
  assumes "exec openTagHead s 0 = Some mt"
  shows "CHR ''<'' \<in> set s"
proof -
  from exec_accepts [OF assms]
  have "accepts False (Seq Bol (Seq spaces (Seq (Lit (CHR ''<'')) (Seq (Group 1 words1) Eps))))
          (mText mt)"
    by (simp add: openTagHead_def)
  then obtain u v x y where "mText mt = u @ v @ x @ y" and "accepts False (Lit (CHR ''<'')) x"
    by (auto elim!: accepts_SeqE)
  moreover from this(2) have "x = [CHR ''<'']"
    by (auto elim: accepts_LitE simp: canonicalize_def)
  ultimately have "CHR ''<'' \<in> set (mText mt)" by simp
  with exec_text_subset [OF assms] show ?thesis by blast
qed

lemma varToken_no_lt: "\<not> mayConsume False varToken (CHR ''<'')"
  by (simp add: varToken_def lits_def words1_def Plus_def canonicalize_def isWord_def)

lemma varSplitter_no_lt:
  assumes "matchAt varSplitter q rest = Some mt"
  shows "CHR ''<'' \<notin> set (mText mt)"
proof
  assume "CHR ''<'' \<in> set (mText mt)"
  with matchAt_bounds(5) [OF assms] have "mayConsume False (ast varSplitter) (CHR ''<'')"
    by (auto simp: varSplitter_def dest: accepts_chars)
  with varToken_no_lt show False by (simp add: varSplitter_def)
qed

lemma rmatch_Seq_sound:
  assumes "rmatch ic (Seq a b) k st cs = Some res"
  shows "\<exists>p1 rest1 cs1. passes ic a st (p1, rest1) \<and> rmatch ic b k (p1, rest1) cs1 = Some res"
proof -
  from assms have "rmatch ic a (\<lambda>st' cs'. rmatch ic b k st' cs') st cs = Some res" by simp
  from rmatch_sound [OF this] show ?thesis by blast
qed

lemma varExact_whole:
  assumes "exec varExact p 0 = Some mt"
  shows "\<exists>w. p = w \<and> accepts False (Seq (lits ''{{'') (Seq (Group 1 words1) (lits ''}}''))) w"
proof -
  let ?K = "\<lambda>st' cs'. Some (st', cs')"
  let ?A = "lits ''{{''" and ?B = "Group 1 words1" and ?C = "lits ''}}''"
  from exec_matchAt [OF assms] obtain q where "matchAt varExact q (drop q p) = Some mt" by blast
  then obtain res where
    "rmatch False (Seq Bol (Seq ?A (Seq ?B (Seq ?C (Seq Eol Eps))))) ?K (q, drop q p) Map.empty
       = Some res"
    by (auto simp: matchAt_def varExact_def split: option.splits)
  then have q: "q = 0"
    and m: "rmatch False (Seq ?A (Seq ?B (Seq ?C (Seq Eol Eps)))) ?K (0, p) Map.empty = Some res"
    by (auto split: if_splits)
  from rmatch_Seq_sound [OF m] obtain p1 rest1 cs1 where
    a: "passes False ?A (0, p) (p1, rest1)"
    and m1: "rmatch False (Seq ?B (Seq ?C (Seq Eol Eps))) ?K (p1, rest1) cs1 = Some res" by blast
  from rmatch_Seq_sound [OF m1] obtain p2 rest2 cs2 where
    b: "passes False ?B (p1, rest1) (p2, rest2)"
    and m2: "rmatch False (Seq ?C (Seq Eol Eps)) ?K (p2, rest2) cs2 = Some res" by blast
  from rmatch_Seq_sound [OF m2] obtain p3 rest3 cs3 where
    c: "passes False ?C (p2, rest2) (p3, rest3)"
    and m3: "rmatch False (Seq Eol Eps) ?K (p3, rest3) cs3 = Some res" by blast
  from m3 have "rest3 = []" by (simp split: if_splits)
  with a b c show ?thesis
    by (auto simp: passes_def intro!: aSeq)
qed

lemma varExact_no_lt:
  assumes "CHR ''<'' \<in> set p"
  shows "exec varExact p 0 = None"
proof (cases "exec varExact p 0")
  case None
  then show ?thesis .
next
  case (Some mt)
  from varExact_whole [OF Some]
  have "accepts False (Seq (lits ''{{'') (Seq (Group 1 words1) (lits ''}}''))) p" by simp
  from accepts_chars [OF this assms] have False
    by (simp add: lits_def words1_def Plus_def canonicalize_def isWord_def)
  then show ?thesis ..
qed

lemma minLen_seqs_append: "minLen (seqs (xs @ ys)) = minLen (seqs xs) + minLen (seqs ys)"
  by (induction xs) simp_all

lemma compileStatic_minLen:
  "c \<in> set p \<Longrightarrow> \<not> isSpace c \<Longrightarrow> 1 \<le> minLen (seqs (compileStatic b p))"
proof (induction p arbitrary: b)
  case Nil
  then show ?case by simp
next
  case (Cons x xs)
  show ?case
  proof (cases "isSpace x")
    case True
    with Cons.prems have "c \<in> set xs" by auto
    from Cons.IH [OF this Cons.prems(2)] True show ?thesis by (simp add: spaces_def)
  next
    case False
    then show ?thesis by (simp add: minLen_seqs_append)
  qed
qed

lemma compileParts_minLen:
  "compileParts ps acc vars = (rs, vs) \<Longrightarrow>
     minLen (seqs acc) \<le> minLen (seqs rs)
     \<and> ((\<exists>p \<in> set ps. CHR ''<'' \<in> set p) \<longrightarrow> 1 \<le> minLen (seqs rs))"
proof (induction ps arbitrary: acc vars)
  case Nil
  then show ?case by simp
next
  case (Cons p ps)
  show ?case
  proof (cases "exec varExact p 0")
    case (Some varMatch)
    with Cons.prems have
      "compileParts ps (acc @ [Group (Suc (length vars)) anyLazy]) (vars @ [capture varMatch 1])
         = (rs, vs)" by simp
    from Cons.IH [OF this] varExact_no_lt [of p] Some show ?thesis
      by (auto simp: minLen_seqs_append)
  next
    case None
    show ?thesis
    proof (cases "p = []")
      case True
      with None Cons.prems have "compileParts ps acc vars = (rs, vs)" by simp
      from Cons.IH [OF this] True show ?thesis by auto
    next
      case False
      with None Cons.prems have r: "compileParts ps (acc @ compileStatic False p) vars = (rs, vs)"
        by simp
      have "CHR ''<'' \<in> set p \<Longrightarrow> 1 \<le> minLen (seqs (acc @ compileStatic False p))"
        using compileStatic_minLen [of "CHR ''<''" p False]
        by (simp add: minLen_seqs_append isSpace_def)
      with Cons.IH [OF r] show ?thesis
        by (auto simp: minLen_seqs_append)
    qed
  qed
qed

lemma compilePattern_minLen:
  assumes "CHR ''<'' \<in> set s"
  shows "1 \<le> minLen (ast (regex (compilePattern s)))"
proof -
  from assms have ne: "s \<noteq> []" by auto
  from assms have "CHR ''<'' \<in> set (drop 0 s)" by simp
  from splitLoop_covers [where r = varSplitter and p = 0 and q = 0, OF varSplitter_no_lt this]
  have "\<exists>piece \<in> set (splitRe s varSplitter). CHR ''<'' \<in> set piece"
    using ne by (simp add: splitRe_def)
  moreover obtain rs vs where c: "compileParts (splitRe s varSplitter) [] [] = (rs, vs)"
    by (cases "compileParts (splitRe s varSplitter) [] []")
  ultimately have "1 \<le> minLen (seqs rs)" using compileParts_minLen [OF c] by blast
  with c show ?thesis by (simp add: compilePattern_def)
qed

lemma analyzeContainer_prefix:
  assumes "analyzeContainer pat = Some info"
  shows "1 \<le> minLen (ast (regex (compilePattern (startPattern info))))"
proof -
  from assms obtain tagMatch where "exec openTagHead (startPattern info) 0 = Some tagMatch"
    by (auto simp: analyzeContainer_def split: option.splits if_splits list.splits)
  from openTagHead_lt [OF this] show ?thesis by (rule compilePattern_minLen)
qed

text \<open>
  C6. For every text and every container pattern the loop of \<open>migrateBalanced\<close> ends and
  returns its list of spans; the spans are in ascending order and none starts before the
  one before it has ended, so that no two overlap and no occurrence of the tag inside a
  reported span is reported itself; and every span reported ends just after a closing tag
  that \<open>findBalancedCloseIndex\<close> found from the end of its prefix, its content being the
  text between the two, so that a prefix whose closing tag never balances gives no span.
\<close>

theorem balanced_spans_disjoint:
  assumes "analyzeContainer pat = Some info"
  shows "\<exists>ms. collectMatches (regex (compilePattern (startPattern info))) (tagName info) html 0
                 = Some ms
          \<and> sorted_wrt (\<lambda>a b. spanEnd a \<le> spanStart b) ms
          \<and> (\<forall>m \<in> set ms.
                spanStart m < spanEnd m \<and> spanEnd m \<le> length html \<and>
                (\<exists>contentStart closeIndex.
                   spanStart m \<le> contentStart \<and>
                   findBalancedCloseIndex html contentStart (tagName info) = Some closeIndex \<and>
                   content m = substring html contentStart closeIndex \<and>
                   closeIndex < spanEnd m))"
proof -
  let ?r = "regex (compilePattern (startPattern info))"
  from collectMatches_returns [OF analyzeContainer_prefix [OF assms]]
  obtain ms where ms: "collectMatches ?r (tagName info) html 0 = Some ms" by blast
  from collectMatches_spans [OF ms] ms show ?thesis by blast
qed

theorem balanced_spans_disjoint_witness:
  "analyzeContainer (classA @ ''{{content}}</div>'')
     = Some \<lparr>tagName = ''div'', startPattern = classA, variable = ''content''\<rparr>
   \<and> (\<exists>ms. collectMatches (regex (compilePattern classA)) ''div''
                (classA @ ''X</div>'' @ classA @ ''Y</div>'') 0 = Some ms
          \<and> sorted_wrt (\<lambda>a b. spanEnd a \<le> spanStart b) ms
          \<and> (\<forall>m \<in> set ms.
                spanStart m < spanEnd m
                \<and> spanEnd m \<le> length (classA @ ''X</div>'' @ classA @ ''Y</div>'')
                \<and> (\<exists>contentStart closeIndex.
                   spanStart m \<le> contentStart \<and>
                   findBalancedCloseIndex (classA @ ''X</div>'' @ classA @ ''Y</div>'')
                     contentStart ''div'' = Some closeIndex \<and>
                   content m = substring (classA @ ''X</div>'' @ classA @ ''Y</div>'')
                                 contentStart closeIndex \<and>
                   closeIndex < spanEnd m)))"
proof -
  have h: "analyzeContainer (classA @ ''{{content}}</div>'')
     = Some \<lparr>tagName = ''div'', startPattern = classA, variable = ''content''\<rparr>"
    by code_simp
  from balanced_spans_disjoint [OF h, of "classA @ ''X</div>'' @ classA @ ''Y</div>''"] h
  show ?thesis by simp
qed

subsection \<open>The loops always move on\<close>

text \<open>
  The recursive calls of \<open>execAll\<close>, \<open>splitLoop\<close>, \<open>scanBalanced\<close> and
  \<open>collectMatches\<close> are guarded by a test that the position has moved. The tests never
  fail where the program goes on: a match ends at or after the position the search
  started from, the tag scanner never matches the empty string, and a closing tag found
  by the scan has its \<open>>\<close>. The one loop that can stall is that of \<open>migrateBalanced\<close>,
  on a prefix that matches the empty string where no closing tag balances.
\<close>

lemma execAll_step:
  assumes "exec r s lastIndex = Some mt"
  shows "execAll r s lastIndex
           = mt # execAll r s (if mText mt = [] then Suc (mEnd mt) else mEnd mt)"
proof -
  from assms have "lastIndex \<le> length s" by (auto simp: exec_def split: if_splits)
  moreover from exec_bounds(1) [OF assms] have "lastIndex \<le> mEnd mt" by (simp add: mEnd_def)
  moreover have "mText mt \<noteq> [] \<Longrightarrow> lastIndex < mEnd mt"
    using exec_bounds(1) [OF assms] by (cases "mText mt") (simp_all add: mEnd_def)
  ultimately show ?thesis using assms
    by (subst execAll.simps) (auto simp: Let_def)
qed

lemma splitLoop_match_forward:
  assumes "matchAt r q (drop q s) = Some mt" and "q < length s"
  shows "q \<le> min (mEnd mt) (length s)"
  using matchAt_bounds(1,3) [OF assms(1)] assms(2) by (simp add: mEnd_def)

lemma scanBalanced_step:
  assumes "exec (tagScanner t) html lastIndex = Some mt"
  shows "scanBalanced (tagScanner t) html lastIndex depth =
           (let depth' = (if capture mt 1 \<noteq> [] then depth + 1
                          else if capture mt 2 \<noteq> [] then depth - 1
                          else depth)
            in if depth' = 0 then Some (mIndex mt)
               else scanBalanced (tagScanner t) html (mEnd mt) depth')"
proof -
  from assms have "lastIndex \<le> length html" by (auto simp: exec_def split: if_splits)
  moreover from exec_bounds(1,3) [OF assms] tagScanner_minLen [of t]
  have "lastIndex < mEnd mt" by (simp add: mEnd_def)
  ultimately show ?thesis using assms
    by (subst scanBalanced.simps) (simp add: Let_def)
qed

lemma collectMatches_step_found:
  assumes "exec r html lastIndex = Some mt"
    and "findBalancedCloseIndex html (mIndex mt + length (mText mt)) tag = Some closeIndex"
  shows "\<exists>i. indexOfChar html (CHR ''>'') closeIndex = Some i
          \<and> collectMatches r tag html lastIndex =
              map_option
                (Cons \<lparr>spanStart = mIndex mt, spanEnd = i + 1,
                        content = substring html (mIndex mt + length (mText mt)) closeIndex\<rparr>)
                (collectMatches r tag html (i + 1))"
proof -
  let ?cs = "mIndex mt + length (mText mt)"
  from assms(2) have sb: "scanBalanced (tagScanner (toLowerCase tag)) html ?cs 1 = Some closeIndex"
    by (simp add: findBalancedCloseIndex_def)
  from scanBalanced_close_tag [OF sb] obtain i
    where i: "indexOfChar html (CHR ''>'') closeIndex = Some i" by auto
  from assms(1) have le: "lastIndex \<le> length html" by (auto simp: exec_def split: if_splits)
  from indexOfChar_bounds(1) [OF i] scanBalanced_lower [OF sb] exec_bounds(1) [OF assms(1)]
  have "lastIndex < i + 1" by simp
  with i le assms show ?thesis
    by (subst collectMatches.simps) (simp add: Let_def)
qed

lemma collectMatches_step_unbalanced:
  assumes "exec r html lastIndex = Some mt"
    and "findBalancedCloseIndex html (mIndex mt + length (mText mt)) tag = None"
    and "mText mt \<noteq> []"
  shows "collectMatches r tag html lastIndex
           = collectMatches r tag html (mIndex mt + length (mText mt))"
proof -
  from assms(1) have le: "lastIndex \<le> length html" by (auto simp: exec_def split: if_splits)
  from exec_bounds(1) [OF assms(1)] assms(3)
  have "lastIndex < mIndex mt + length (mText mt)" by (cases "mText mt") simp_all
  with le assms show ?thesis
    by (subst collectMatches.simps) (simp add: Let_def)
qed

subsection \<open>MigrationPipeline: the lookup of the target pattern\<close>

lemma buildTargetMap_snoc:
  "buildTargetMap (ps @ [p]) = targetMapSet (buildTargetMap ps) p"
  by (simp add: buildTargetMap_def)

lemma buildTargetMap_lookup:
  "nm \<noteq> ''__proto__'' \<Longrightarrow>
   buildTargetMap ps nm = map_option pattern (find (\<lambda>q. name q = nm) (rev ps))"
proof (induction ps rule: rev_induct)
  case Nil
  then show ?case by (simp add: buildTargetMap_def)
next
  case (snoc p ps)
  then show ?case
    by (auto simp: buildTargetMap_snoc targetMapSet_def)
qed

text \<open>
  C2, as claimed: a name shared by several target parts resolves to the first of them.
  It does not: with two parts named \<open>a\<close>, the first with pattern \<open>X\<close> and the second with
  pattern \<open>Y\<close>, the lookup gives \<open>Y\<close>.
\<close>

theorem targetMap_first_match_counterexample:
  "find (\<lambda>q. name q = ''a'') twoTargets = Some \<lparr>name = ''a'', pattern = ''X''\<rparr>
   \<and> targetMapGet (buildTargetMap twoTargets) ''a'' = JStr ''Y''
   \<and> targetMapGet (buildTargetMap twoTargets) ''a'' \<noteq> JStr ''X''"
  by code_simp

text \<open>
  C2, amended: each assignment \<open>targetMap[p.name] = p.pattern\<close> overwrites the one before,
  so a name resolves to the last target part that has it. (The name \<open>__proto__\<close> is the
  one exception: assigning a string to it stores nothing.)
\<close>

theorem targetMap_last_match:
  assumes "nm \<noteq> ''__proto__''"
    and "find (\<lambda>q. name q = nm) (rev targetParts) = Some p"
  shows "targetMapGet (buildTargetMap targetParts) nm = JStr (pattern p)"
  using assms by (simp add: targetMapGet_def buildTargetMap_lookup)

theorem targetMap_last_match_witness:
  "''a'' \<noteq> ''__proto__''
   \<and> find (\<lambda>q. name q = ''a'') (rev twoTargets) = Some \<lparr>name = ''a'', pattern = ''Y''\<rparr>
   \<and> targetMapGet (buildTargetMap twoTargets) ''a'' = JStr (pattern \<lparr>name = ''a'', pattern = ''Y''\<rparr>)"
proof -
  have h1: "''a'' \<noteq> ''__proto__''" by simp
  have h2: "find (\<lambda>q. name q = ''a'') (rev twoTargets) = Some \<lparr>name = ''a'', pattern = ''Y''\<rparr>"
    by (simp add: twoTargets_def)
  from targetMap_last_match [OF h1 h2] h1 h2 show ?thesis by simp
qed

subsection \<open>MigrationPipeline: a source part without a target\<close>

lemma migrateParts_no_target:
  assumes "targetMapGet tm (name sPart) = JUndefined"
  shows "migrateParts tm (sPart # rest) html mm =
           migrateParts tm rest html
             (if test (regex (compilePattern (pattern sPart))) html
              then mm @ [\<lparr>name = name sPart, pattern = pattern sPart\<rparr>] else mm)"
  using assms by (simp add: truthy_def)

lemma targetMapGet_undefined:
  assumes "nm \<notin> set protoNames" and "nm \<notin> name ` set targetParts"
  shows "targetMapGet (buildTargetMap targetParts) nm = JUndefined"
proof -
  have "nm \<noteq> ''__proto__''" using assms(1) by (auto simp: protoNames_def)
  moreover have "find (\<lambda>q. name q = nm) (rev targetParts) = None"
    using assms(2) by (auto simp: find_None_iff)
  ultimately show ?thesis using assms(1)
    by (simp add: targetMapGet_def buildTargetMap_lookup)
qed

text \<open>
  C7. The claim is about every source part whose name no target part has: an entry in
  \<open>missing\<close> if and only if its pattern occurs in the working text, the text unchanged,
  and the migration going on. That is what the loop does when the lookup gives
  \<open>undefined\<close> (\<open>migrateParts_no_target\<close>, \<open>targetMapGet_undefined\<close>). But \<open>targetMap\<close> is
  the object literal \<open>{}\<close>: for a source part named \<open>constructor\<close> the lookup gives the
  inherited function, which is truthy, the part is taken as one that has a target, and
  \<open>renderTarget\<close> throws at its first match. Nothing is recorded and the migration stops.
\<close>

theorem migrate_inherited_name_throws:
  "migrate d ''<b>Hi</b>'' [\<lparr>name = ''constructor'', pattern = ''<b>{{t}}</b>''\<rparr>] []
     = Some (Inl TypeError)"
  by code_simp

subsection \<open>MigrationPipeline: the order of the source parts\<close>

lemma insertSorted_compareParts:
  "insertSorted compareParts x ys = insort_key (\<lambda>p. - int (length (pattern p))) x ys"
  by (induction ys) (auto simp: compareParts_def)

lemma sortedSourceParts_sort_key:
  "sortedSourceParts ps = sort_key (\<lambda>p. - int (length (pattern p))) ps"
proof -
  have "insertSorted compareParts = insort_key (\<lambda>p. - int (length (pattern p)))"
    by (intro ext) (rule insertSorted_compareParts)
  then show ?thesis
    by (simp add: sortedSourceParts_def sortArray_def sort_key_def)
qed

text \<open>
  C9, as claimed: a source pattern whose static text strictly contains the static text of
  another is attempted before it. It is not, when the placeholder of the inner pattern
  has a long name: \<open><b>{{a_rather_long_placeholder}}</b>\<close> is a longer string than
  \<open><div><b>{{x}}</b></div>\<close> and comes first. Its substitution then takes the text that
  the outer pattern would have matched; in the other order the outer pattern wins.
\<close>

theorem longer_static_text_counterexample:
  "staticText (pattern outerPart) = ''<div><b></b></div>''
   \<and> staticText (pattern innerPart) = ''<b></b>''
   \<and> strict_sublist (staticText (pattern innerPart)) (staticText (pattern outerPart))
   \<and> sortedSourceParts [outerPart, innerPart] = [innerPart, outerPart]
   \<and> migrateParts (buildTargetMap bothTargets) (sortedSourceParts [outerPart, innerPart])
        ''<div><b>hi</b></div>'' []
       = Some (Inr (''<div>'' @ diffStart @ ''<strong>hi</strong>'' @ diffEnd @ ''</div>'', []))
   \<and> migrateParts (buildTargetMap bothTargets) [outerPart, innerPart]
        ''<div><b>hi</b></div>'' []
       = Some (Inr (diffStart @ ''<section>hi</section>'' @ diffEnd, []))"
  by code_simp

text \<open>
  C9, amended: the parts are processed in descending order of the length of the pattern
  string, those of equal length in their original order. \<open>migrate\<close> runs its loop,
  \<open>migrateParts\<close>, over \<open>sortedSourceParts sourceParts\<close>: that list is sorted by
  descending length, holds the same parts, and keeps the parts of any one length in the
  order of \<open>sourceParts\<close>. So a strictly longer pattern string is attempted first.
\<close>

theorem sortedSourceParts_descending_stable:
  "sorted_wrt (\<lambda>a b. length (pattern b) \<le> length (pattern a)) (sortedSourceParts ps)
   \<and> mset (sortedSourceParts ps) = mset ps
   \<and> filter (\<lambda>p. length (pattern p) = k) (sortedSourceParts ps)
       = filter (\<lambda>p. length (pattern p) = k) ps"
proof -
  let ?f = "\<lambda>p. - int (length (pattern p))"
  have "sorted (map ?f (sort_key ?f ps))" by (rule sorted_sort_key)
  then have s: "sorted_wrt (\<lambda>a b. length (pattern b) \<le> length (pattern a)) (sort_key ?f ps)"
    by (simp add: sorted_wrt_map)
  have "filter (\<lambda>p. ?f p = - int k) (sort_key ?f ps) = filter (\<lambda>p. ?f p = - int k) ps"
    by (rule sort_key_stable)
  then have f: "filter (\<lambda>p. length (pattern p) = k) (sort_key ?f ps)
       = filter (\<lambda>p. length (pattern p) = k) ps" by simp
  show ?thesis using s f by (simp add: sortedSourceParts_sort_key)
qed

subsection \<open>StructureNormalizer\<close>

lemma recursiveRemoveEmpty_Element:
  "recursiveRemoveEmpty (Element tag attrs kids) =
     (let kids' = concat (map visitChild kids);
          node = Element tag attrs kids';
          tagName = toLowerCase tag
      in if tagName \<in> set voidTags then (False, node)
         else if ''numbering-num'' \<in> set (classList attrs) then (False, node)
         else if tagName \<in> set [''span'', ''i'', ''em'', ''strong'', ''b'', ''th'', ''td'']
                 \<and> (tagName \<in> set [''th'', ''td''] \<or> length attrs > 0)
         then (False, node)
         else if length (filter isElement kids') = 0 \<and> trim (textContent node) = []
         then (True, node)
         else (False, node))"
proof -
  have eq: "(\<lambda>child. if isElement child
                     then (let (removed, child') = recursiveRemoveEmpty child
                           in if removed then [] else [child'])
                     else [child]) = visitChild"
    by (rule ext) (simp add: visitChild_def)
  show ?thesis
    by (simp only: recursiveRemoveEmpty.simps eq)
qed

lemma snd_recursiveRemoveEmpty_Element:
  "snd (recursiveRemoveEmpty (Element tag attrs kids))
     = Element tag attrs (concat (map visitChild kids))"
  by (simp add: recursiveRemoveEmpty_Element Let_def del: recursiveRemoveEmpty.simps)

text \<open>
  On trees the pruning is idempotent: a second call on the node that a call leaves
  removes nothing more and comes to the same verdict.
\<close>

lemma recursiveRemoveEmpty_again:
  "recursiveRemoveEmpty (snd (recursiveRemoveEmpty n)) = recursiveRemoveEmpty n"
proof (induction n)
  case (Element tag attrs kids)
  have visit: "concat (map visitChild (visitChild c)) = visitChild c" if "c \<in> set kids" for c
  proof (cases "isElement c")
    case False
    then show ?thesis by (simp add: visitChild_def)
  next
    case True
    then obtain t a ks where c: "c = Element t a ks" by (cases c) auto
    obtain r c' where rc: "recursiveRemoveEmpty c = (r, c')"
      by (cases "recursiveRemoveEmpty c")
    have c': "c' = Element t a (concat (map visitChild ks))"
      using rc snd_recursiveRemoveEmpty_Element [of t a ks] c by simp
    from Element.IH [OF that] rc have again: "recursiveRemoveEmpty c' = (r, c')" by simp
    show ?thesis
      using True rc again c' by (simp add: visitChild_def)
  qed
  have "concat (map visitChild (concat (map visitChild kids))) = concat (map visitChild kids)"
    using visit
  proof (induction kids)
    case Nil
    then show ?case by simp
  next
    case (Cons k ks)
    then show ?case by simp
  qed
  then show ?case
    by (simp add: recursiveRemoveEmpty_Element Let_def del: recursiveRemoveEmpty.simps)
qed simp_all

text \<open>
  C4, as claimed: \<open>normalize\<close> removes \<open><span class="icon"></span>\<close>, the class \<open>icon\<close>
  not being the keep marker. It does not: \<open>class\<close> is an attribute, and a \<open>span\<close> that
  has an attribute is kept whatever the attribute is.
\<close>

theorem span_with_class_counterexample:
  "recursiveRemoveEmpty (Element ''span'' [(''class'', ''icon'')] [])
     = (False, Element ''span'' [(''class'', ''icon'')] [])
   \<and> parseFragment sampleDom spanIcon = [Element ''span'' [(''class'', ''icon'')] []]
   \<and> cleanHtml sampleDom spanIcon = spanIcon
   \<and> cleanHtml sampleDom spanIcon \<noteq> []"
  by code_simp

text \<open>
  C4, amended: \<open>normalize("<span></span>")\<close> is the empty string;
  \<open><span class="icon"></span>\<close> is retained, since it carries an attribute;
  \<open><span data-x="1"></span>\<close> is retained. The parser and the serializer are the
  platform's: the hypotheses say what the parser builds from the three inputs and that
  no node serializes to the empty string.
\<close>

theorem normalize_span_examples:
  assumes "parseFragment d ''<span></span>'' = [Element ''span'' [] []]"
    and "parseFragment d spanIcon = [Element ''span'' [(''class'', ''icon'')] []]"
    and "parseFragment d spanData = [Element ''span'' [(''data-x'', ''1'')] []]"
    and "serializeFragment d [] = []"
  shows "cleanHtml d ''<span></span>'' = []
       \<and> cleanHtml d spanIcon = serializeFragment d [Element ''span'' [(''class'', ''icon'')] []]
       \<and> cleanHtml d spanData = serializeFragment d [Element ''span'' [(''data-x'', ''1'')] []]"
proof -
  have a: "recursiveRemoveEmpty (Element ''span'' [] []) = (True, Element ''span'' [] [])"
    by code_simp
  have b: "recursiveRemoveEmpty (Element ''span'' [(''class'', ''icon'')] [])
             = (False, Element ''span'' [(''class'', ''icon'')] [])"
    by code_simp
  have c: "recursiveRemoveEmpty (Element ''span'' [(''data-x'', ''1'')] [])
             = (False, Element ''span'' [(''data-x'', ''1'')] [])"
    by code_simp
  show ?thesis
    using assms a b c
    by (simp add: cleanHtml_def recursiveRemoveEmpty_Element visitChild_def Let_def split_beta
             del: recursiveRemoveEmpty.simps)
qed

theorem normalize_span_examples_witness:
  "parseFragment sampleDom ''<span></span>'' = [Element ''span'' [] []]
   \<and> parseFragment sampleDom spanIcon = [Element ''span'' [(''class'', ''icon'')] []]
   \<and> parseFragment sampleDom spanData = [Element ''span'' [(''data-x'', ''1'')] []]
   \<and> cleanHtml sampleDom ''<span></span>'' = []
   \<and> cleanHtml sampleDom spanIcon = spanIcon
   \<and> cleanHtml sampleDom spanData = spanData"
proof -
  have h1: "parseFragment sampleDom ''<span></span>'' = [Element ''span'' [] []]"
    by code_simp
  have h2: "parseFragment sampleDom spanIcon = [Element ''span'' [(''class'', ''icon'')] []]"
    by code_simp
  have h3: "parseFragment sampleDom spanData = [Element ''span'' [(''data-x'', ''1'')] []]"
    by code_simp
  have s1: "serializeFragment sampleDom [] = []"
    by code_simp
  have s2: "serializeFragment sampleDom [Element ''span'' [(''class'', ''icon'')] []] = spanIcon"
    by code_simp
  have s3: "serializeFragment sampleDom [Element ''span'' [(''data-x'', ''1'')] []] = spanData"
    by code_simp
  from normalize_span_examples [OF h1 h2 h3 s1] h1 h2 h3 s2 s3 show ?thesis by simp
qed

text \<open>
  C8, as claimed: \<open>normalize(normalize(x)) = normalize(x)\<close> for every input. The second
  call parses what the first one serialized, and the parser need not read a serialized
  tree back as it was. The standard's parser reads everything after \<open><plaintext>\<close> as
  text, the end tag that the serializer writes included: for \<open><plaintext>a\<close> the first
  call gives \<open><plaintext>a</plaintext>\<close> and the second
  \<open><plaintext>a</plaintext></plaintext>\<close>.
\<close>

theorem normalize_twice_counterexample:
  "cleanHtml sampleDom ''<plaintext>a'' = ''<plaintext>a</plaintext>''
   \<and> cleanHtml sampleDom (cleanHtml sampleDom ''<plaintext>a'')
       = ''<plaintext>a</plaintext></plaintext>''
   \<and> cleanHtml sampleDom (cleanHtml sampleDom ''<plaintext>a'')
       \<noteq> cleanHtml sampleDom ''<plaintext>a''"
  by code_simp

text \<open>
  C8, amended: the pruning is idempotent on trees (\<open>recursiveRemoveEmpty_again\<close>), and
  \<open>normalize(normalize(x)) = normalize(x)\<close> for every input \<open>x\<close> whose pruned tree the
  parser reads back unchanged from its serialization.
\<close>

theorem cleanHtml_idempotent_on_stable_input:
  assumes "parseFragment d (cleanHtml d x)
             = childNodes (snd (recursiveRemoveEmpty (Element ''div'' [] (parseFragment d x))))"
  shows "cleanHtml d (cleanHtml d x) = cleanHtml d x"
proof -
  let ?t = "snd (recursiveRemoveEmpty (Element ''div'' [] (parseFragment d x)))"
  have t: "?t = Element ''div'' [] (childNodes ?t)"
    by (simp add: snd_recursiveRemoveEmpty_Element del: recursiveRemoveEmpty.simps)
  have c1: "cleanHtml d x = serializeFragment d (childNodes ?t)"
    by (simp add: cleanHtml_def split_beta Let_def)
  have "cleanHtml d (cleanHtml d x)
          = serializeFragment d
              (childNodes (snd (recursiveRemoveEmpty (Element ''div'' [] (childNodes ?t)))))"
    using assms by (simp add: cleanHtml_def [of d "cleanHtml d x"] split_beta Let_def)
  also have "Element ''div'' [] (childNodes ?t) = ?t" using t by simp
  also have "recursiveRemoveEmpty ?t
               = recursiveRemoveEmpty (Element ''div'' [] (parseFragment d x))"
    by (rule recursiveRemoveEmpty_again)
  finally show ?thesis using c1 by simp
qed

theorem cleanHtml_idempotent_witness:
  "parseFragment sampleDom (cleanHtml sampleDom ''<p>a</p><div> <i></i></div>'')
     = childNodes (snd (recursiveRemoveEmpty
         (Element ''div'' [] (parseFragment sampleDom ''<p>a</p><div> <i></i></div>''))))
   \<and> cleanHtml sampleDom ''<p>a</p><div> <i></i></div>'' = ''<p>a</p>''
   \<and> cleanHtml sampleDom (cleanHtml sampleDom ''<p>a</p><div> <i></i></div>'')
       = cleanHtml sampleDom ''<p>a</p><div> <i></i></div>''"
proof -
  have h: "parseFragment sampleDom (cleanHtml sampleDom ''<p>a</p><div> <i></i></div>'')
     = childNodes (snd (recursiveRemoveEmpty
         (Element ''div'' [] (parseFragment sampleDom ''<p>a</p><div> <i></i></div>''))))"
    by code_simp
  have v: "cleanHtml sampleDom ''<p>a</p><div> <i></i></div>'' = ''<p>a</p>''"
    by code_simp
  from cleanHtml_idempotent_on_stable_input [OF h] h v show ?thesis by simp
qed

subsection \<open>MigrationPipeline: the arguments are left alone\<close>

lemma frameExcept_refl: "frameExcept mm h h"
  by (simp add: frameExcept_def)

lemma frameExcept_trans:
  "frameExcept mm h h' \<Longrightarrow> frameExcept mm h' h'' \<Longrightarrow> frameExcept mm h h''"
  by (auto simp: frameExcept_def)

lemma migratePartsH_frame:
  "migratePartsH tm refs html mm h = Some (res, h') \<Longrightarrow> frameExcept mm h h'"
proof (induction refs arbitrary: html h)
  case Nil
  then show ?case by (simp add: frameExcept_refl)
next
  case (Cons ref rest)
  let ?sPart = "getObject h ref"
  let ?t = "targetMapGet tm (name ?sPart)"
  show ?case
  proof (cases "truthy ?t")
    case False
    show ?thesis
    proof (cases "test (regex (compilePattern (pattern ?sPart))) html")
      case True
      let ?h1 = "snd (newObject \<lparr>name = name ?sPart, pattern = pattern ?sPart\<rparr> h)"
      let ?e = "fst (newObject \<lparr>name = name ?sPart, pattern = pattern ?sPart\<rparr> h)"
      let ?h2 = "setArray mm (getArray ?h1 mm @ [?e]) ?h1"
      from Cons.prems False True have "migratePartsH tm rest html mm ?h2 = Some (res, h')"
        by (simp add: Let_def split_beta)
      from Cons.IH [OF this] have "frameExcept mm ?h2 h'" .
      moreover have "frameExcept mm h ?h2"
        by (simp add: frameExcept_def newObject_def setArray_def)
      ultimately show ?thesis by (rule frameExcept_trans [rotated])
    next
      case nt: False
      with Cons.prems False have "migratePartsH tm rest html mm h = Some (res, h')"
        by (simp add: Let_def)
      from Cons.IH [OF this] show ?thesis .
    qed
  next
    case True
    show ?thesis
    proof (cases "analyzeContainer (pattern ?sPart)")
      case None
      show ?thesis
      proof (cases "migrateRegex html ?sPart ?t")
        case (Inl e)
        with Cons.prems True None have "h' = h" by (simp add: Let_def)
        then show ?thesis by (simp add: frameExcept_refl)
      next
        case (Inr html')
        with Cons.prems True None have "migratePartsH tm rest html' mm h = Some (res, h')"
          by (simp add: Let_def)
        from Cons.IH [OF this] show ?thesis .
      qed
    next
      case (Some info)
      show ?thesis
      proof (cases "migrateBalanced html ?sPart ?t info")
        case None
        with Cons.prems True Some show ?thesis by (simp add: Let_def)
      next
        case (Some r)
        note mb = this
        show ?thesis
        proof (cases r)
          case (Inl e)
          with Cons.prems True \<open>analyzeContainer (pattern ?sPart) = Some info\<close> mb
          have "h' = h" by (simp add: Let_def)
          then show ?thesis by (simp add: frameExcept_refl)
        next
          case (Inr html')
          with Cons.prems True \<open>analyzeContainer (pattern ?sPart) = Some info\<close> mb
          have "migratePartsH tm rest html' mm h = Some (res, h')" by (simp add: Let_def)
          from Cons.IH [OF this] show ?thesis .
        qed
      qed
    qed
  qed
qed

lemma insertSorted_map:
  "map g (insertSorted (\<lambda>a b. cmp (g a) (g b)) x ys) = insertSorted cmp (g x) (map g ys)"
  by (induction ys) auto

lemma sortArray_map:
  "map g (sortArray (\<lambda>a b. cmp (g a) (g b)) xs) = sortArray cmp (map g xs)"
  by (induction xs) (auto simp: sortArray_def insertSorted_map)

lemma set_insertSorted: "set (insertSorted cmp x ys) = insert x (set ys)"
  by (induction ys) auto

lemma set_sortArray: "set (sortArray cmp xs) = set xs"
  by (induction xs) (auto simp: sortArray_def set_insertSorted)

lemma migratePartsH_refines:
  assumes "\<forall>x \<in> set refs. x < nextAddr h" and "\<forall>x \<in> set (getArray h mm). x < nextAddr h"
  shows "migrateParts tm (map (getObject h) refs) html (partsAt h mm)
         = (case migratePartsH tm refs html mm h of
              None \<Rightarrow> None
            | Some (res, h') \<Rightarrow>
                (case res of Inl e \<Rightarrow> Some (Inl e)
                 | Inr html' \<Rightarrow> Some (Inr (html', partsAt h' mm))))"
  using assms
proof (induction refs arbitrary: html h)
  case Nil
  then show ?case by simp
next
  case (Cons ref rest)
  let ?sPart = "getObject h ref"
  let ?t = "targetMapGet tm (name ?sPart)"
  from Cons.prems have rest: "\<forall>x \<in> set rest. x < nextAddr h" by simp
  note ih = Cons.IH [OF rest Cons.prems(2)]
  show ?case
  proof (cases "truthy ?t")
    case False
    show ?thesis
    proof (cases "test (regex (compilePattern (pattern ?sPart))) html")
      case True
      let ?new = "\<lparr>name = name ?sPart, pattern = pattern ?sPart\<rparr>"
      let ?h1 = "snd (newObject ?new h)"
      let ?e = "fst (newObject ?new h)"
      let ?h2 = "setArray mm (getArray ?h1 mm @ [?e]) ?h1"
      have obj: "getObject ?h2 x = getObject h x" if "x < nextAddr h" for x
        using that by (simp add: getObject_def newObject_def setArray_def)
      have arr: "getArray ?h2 mm = getArray h mm @ [nextAddr h]"
        by (simp add: getArray_def newObject_def setArray_def)
      have newo: "getObject ?h2 (nextAddr h) = ?new"
        by (simp add: getObject_def newObject_def setArray_def)
      have pa: "partsAt ?h2 mm = partsAt h mm @ [?new]"
        using Cons.prems(2) obj newo by (simp add: partsAt_def arr)
      have nx: "nextAddr ?h2 = Suc (nextAddr h)"
        by (simp add: newObject_def setArray_def)
      have r2: "\<forall>x \<in> set rest. x < nextAddr ?h2" using rest nx by auto
      have m2: "\<forall>x \<in> set (getArray ?h2 mm). x < nextAddr ?h2"
        using Cons.prems(2) nx arr by auto
      have mp: "map (getObject ?h2) rest = map (getObject h) rest"
        using rest obj by simp
      from Cons.IH [OF r2 m2, of html] mp pa False True show ?thesis
        by (simp add: Let_def split_beta)
    next
      case nt: False
      with ih [of html] False show ?thesis by (simp add: Let_def)
    qed
  next
    case True
    show ?thesis
    proof (cases "analyzeContainer (pattern ?sPart)")
      case None
      show ?thesis
      proof (cases "migrateRegex html ?sPart ?t")
        case (Inl e)
        with True None show ?thesis by (simp add: Let_def)
      next
        case (Inr html')
        with ih [of html'] True None show ?thesis by (simp add: Let_def)
      qed
    next
      case (Some info)
      show ?thesis
      proof (cases "migrateBalanced html ?sPart ?t info")
        case None
        with True Some show ?thesis by (simp add: Let_def)
      next
        case (Some r)
        note mb = this
        show ?thesis
        proof (cases r)
          case (Inl e)
          with True \<open>analyzeContainer (pattern ?sPart) = Some info\<close> mb
          show ?thesis by (simp add: Let_def)
        next
          case (Inr html')
          with ih [of html'] True \<open>analyzeContainer (pattern ?sPart) = Some info\<close> mb
          show ?thesis by (simp add: Let_def)
        qed
      qed
    qed
  qed
qed

lemma migrateH_refines:
  assumes "sourceParts < nextAddr h" and "\<forall>x \<in> set (getArray h sourceParts). x < nextAddr h"
  shows "migrate d sourceHtml (partsAt h sourceParts) (partsAt h targetParts)
         = (case migrateH d h sourceHtml sourceParts targetParts of
              None \<Rightarrow> None
            | Some (res, h') \<Rightarrow>
                (case res of Inl e \<Rightarrow> Some (Inl e)
                 | Inr r \<Rightarrow> Some (Inr \<lparr>code = codeH r, preview = previewH r,
                                         missing = partsAt h' (missingH r)\<rparr>)))"
proof -
  define mm where "mm = nextAddr h"
  define h1 where "h1 = snd (newArray [] h)"
  define sa where "sa = Suc (nextAddr h)"
  define h2 where "h2 = snd (newArray (getArray h1 sourceParts) h1)"
  define srt where "srt = sortArray (\<lambda>a b. compareParts (getObject h2 a) (getObject h2 b))
                            (getArray h2 sa)"
  define h3 where "h3 = setArray sa srt h2"
  define tm where "tm = buildTargetMap (partsAt h targetParts)"
  have unf: "migrateH d h sourceHtml sourceParts targetParts =
      (case migratePartsH tm (getArray h3 sa) sourceHtml mm h3 of
           None \<Rightarrow> None
         | Some (Inl e, h4) \<Rightarrow> Some (Inl e, h4)
         | Some (Inr substituted, h4) \<Rightarrow>
             (let currentHtml = cleanHtml d substituted;
                  codeOutput = replaceStr diffMarkers [] currentHtml;
                  codeOutput = replaceStr (literal ''&lt;!--'') ''<!--''
                                 (replaceStr (literal ''--&gt;'') ''-->'' codeOutput);
                  previewHtml = buildPreview (splitRe currentHtml diffSplitter) []
              in Some (Inr \<lparr>codeH = codeOutput, previewH = previewHtml,
                              missingH = mm\<rparr>, h4)))"
  proof -
    have na1: "newArray [] h = (mm, h1)"
      by (simp add: mm_def h1_def newArray_def)
    have na2: "newArray (getArray h1 sourceParts) h1 = (sa, h2)"
      by (simp add: sa_def h2_def h1_def newArray_def)
    show ?thesis
      by (simp only: migrateH_def Let_def na1 na2 split_conv h3_def srt_def tm_def)
  qed
  have src1: "getArray h1 sourceParts = getArray h sourceParts"
    using assms(1) by (simp add: h1_def getArray_def newArray_def)
  have sa: "getArray h2 sa = getArray h sourceParts"
    using src1 by (simp add: h2_def h1_def sa_def getArray_def newArray_def)
  have obj2: "getObject h2 = getObject h"
    by (simp add: h2_def h1_def getObject_def newArray_def fun_eq_iff)
  have obj3: "getObject h3 = getObject h"
    by (simp add: h3_def h2_def h1_def getObject_def newArray_def setArray_def fun_eq_iff)
  have srt: "srt = sortArray (\<lambda>a b. compareParts (getObject h a) (getObject h b))
                     (getArray h sourceParts)"
    by (simp only: srt_def obj2 sa)
  have arr3: "getArray h3 sa = srt"
    by (simp add: h3_def getArray_def setArray_def)
  have mm3: "getArray h3 mm = []"
    by (simp add: h3_def h2_def h1_def sa_def mm_def getArray_def setArray_def newArray_def)
  have nx3: "nextAddr h3 = Suc (Suc (nextAddr h))"
    by (simp add: h3_def h2_def h1_def newArray_def setArray_def)
  have parts: "map (getObject h3) (getArray h3 sa) = sortedSourceParts (partsAt h sourceParts)"
    by (simp add: arr3 obj3 srt sortArray_map sortedSourceParts_def partsAt_def)
  have r: "\<forall>x \<in> set (getArray h3 sa). x < nextAddr h3"
    using assms(2) nx3 by (auto simp: arr3 srt set_sortArray)
  have m: "\<forall>x \<in> set (getArray h3 mm). x < nextAddr h3"
    using mm3 by simp
  have pm: "partsAt h3 mm = []" using mm3 by (simp add: partsAt_def)
  from migratePartsH_refines [OF r m, of tm sourceHtml]
  have "migrateParts tm (sortedSourceParts (partsAt h sourceParts)) sourceHtml []
        = (case migratePartsH tm (getArray h3 sa) sourceHtml mm h3 of
             None \<Rightarrow> None
           | Some (res, h') \<Rightarrow>
               (case res of Inl e \<Rightarrow> Some (Inl e)
                | Inr html' \<Rightarrow> Some (Inr (html', partsAt h' mm))))"
    by (simp only: parts pm)
  then show ?thesis
    unfolding unf
    by (auto simp: migrate_def tm_def Let_def split: option.splits sum.splits)
qed

lemma migrate_leaves_store:
  assumes "migrateH d h sourceHtml sourceParts targetParts = Some (res, h')"
    and "a < nextAddr h"
  shows "arrays h' a = arrays h a \<and> objects h' a = objects h a"
proof -
  let ?mm = "nextAddr h"
  let ?h1 = "snd (newArray [] h)"
  let ?sa = "fst (newArray (getArray ?h1 sourceParts) ?h1)"
  let ?h2 = "snd (newArray (getArray ?h1 sourceParts) ?h1)"
  let ?h3 = "setArray ?sa (sortArray (\<lambda>a b. compareParts (getObject ?h2 a) (getObject ?h2 b))
                 (getArray ?h2 ?sa)) ?h2"
  from assms(1) obtain r where
    "migratePartsH (buildTargetMap (partsAt h targetParts)) (getArray ?h3 ?sa) sourceHtml ?mm ?h3
       = Some (r, h')"
    by (auto simp: migrateH_def Let_def split_beta newArray_def split: option.splits sum.splits)
  from migratePartsH_frame [OF this] have f: "frameExcept ?mm ?h3 h'" .
  have "nextAddr ?h3 = Suc (Suc (nextAddr h))"
    and "arrays ?h3 a = arrays h a" and "objects ?h3 a = objects h a"
    using assms(2) by (simp_all add: newArray_def setArray_def)
  with f assms(2) show ?thesis by (auto simp: frameExcept_def)
qed

text \<open>
  C10. \<open>migrateH\<close> computes what \<open>migrate\<close> computes (\<open>migrateH_refines\<close>), and whenever
  it returns, be it a result or an exception, the two arrays it was given hold the
  references they held and every object they refer to is the object it was: the sort
  writes the copy, the pushes write the new array, and nothing else is written.
\<close>

theorem migrate_leaves_arguments:
  assumes "migrateH d h sourceHtml sourceParts targetParts = Some (res, h')"
    and "sourceParts < nextAddr h" and "targetParts < nextAddr h"
    and "\<forall>x \<in> set (getArray h sourceParts @ getArray h targetParts). x < nextAddr h"
  shows "getArray h' sourceParts = getArray h sourceParts
       \<and> getArray h' targetParts = getArray h targetParts
       \<and> (\<forall>x \<in> set (getArray h sourceParts @ getArray h targetParts).
             getObject h' x = getObject h x)"
proof -
  note st = migrate_leaves_store [OF assms(1)]
  from st [OF assms(2)] st [OF assms(3)]
  have "getArray h' sourceParts = getArray h sourceParts"
    and "getArray h' targetParts = getArray h targetParts"
    by (simp_all add: getArray_def)
  moreover have "getObject h' x = getObject h x"
    if "x \<in> set (getArray h sourceParts @ getArray h targetParts)" for x
    using st [of x] assms(4) that by (simp add: getObject_def)
  ultimately show ?thesis by blast
qed

theorem migrate_leaves_arguments_witness:
  "(case migrateH sampleDom sampleHeap ''<b>Hi</b><i>x</i>'' 3 4 of
      None \<Rightarrow> False
    | Some (res, h') \<Rightarrow>
        getArray h' 3 = [0, 1] \<and> getArray h' 4 = [2]
        \<and> map (getObject h') [0, 1, 2] = map (getObject sampleHeap) [0, 1, 2])"
proof -
  have run: "migrateH sampleDom sampleHeap ''<b>Hi</b><i>x</i>'' 3 4 \<noteq> None"
    by code_simp
  then obtain res h' where
    r: "migrateH sampleDom sampleHeap ''<b>Hi</b><i>x</i>'' 3 4 = Some (res, h')"
    by auto
  have a: "(3::nat) < nextAddr sampleHeap" "(4::nat) < nextAddr sampleHeap"
    by (simp_all add: sampleHeap_def)
  have g: "getArray sampleHeap 3 = [0, 1]" "getArray sampleHeap 4 = [2]"
    by (simp_all add: sampleHeap_def getArray_def)
  have e: "\<forall>x \<in> set (getArray sampleHeap 3 @ getArray sampleHeap 4). x < nextAddr sampleHeap"
    by (simp add: g) (simp add: sampleHeap_def)
  from migrate_leaves_arguments [OF r a e] g r show ?thesis by simp
qed

end
